theory Spec2Isabelle
  imports Main "HOL-Library.Log_Nat" "HOL-Library.Multiset" "HOL-Library.Word"
begin

section \<open>The streaming shard pipeline of open\_flamingo/train/data.py\<close>

text \<open>
  A shallow embedding of the data pipeline: the count bookkeeping of the pipeline driver,
  the sample grouper, the deterministic shuffle, the resampling shard source, the
  span-masking and interleaved preprocessors, and the batch assembler.

  Python exceptions are values of \<open>py_error\<close>; a function that may raise returns
  \<open>py_error + 'a\<close> with \<open>Inl\<close> for the exception.
\<close>

datatype py_error =
    ZeroDivisionError
  | OverflowError
  | IndexError
  | KeyError string
  | ValueError string
  | RuntimeError string
  | AssertionError string
  | TypeError
  | DecodeError

subsection \<open>Python's true division of integers, \<open>math.ceil\<close> and \<open>math.floor\<close>\<close>

text \<open>
  \<open>num_samples / global_batch_size\<close> divides two Python integers with \<open>/\<close>: the result
  is a float, the IEEE double nearest to the exact quotient (ties to even), and the
  division raises OverflowError when that double would not be finite. A finite double is
  modelled as a pair \<open>(m, e)\<close> standing for \<open>m * 2 ^ e\<close>, with a significand of at most
  53 bits and \<open>e \<ge> -1074\<close>.
\<close>

type_synonym pyfloat = "int \<times> int"

definition round_half_even :: "int \<Rightarrow> int \<Rightarrow> int" where
  "round_half_even n d =
     (let q = n div d; r = n mod d
      in if 2 * r < d then q
         else if d < 2 * r then q + 1
         else if even q then q else q + 1)"

text \<open>\<open>ratio_ge_pow2 a b k\<close> says \<open>2 ^ k \<le> a / b\<close> for positive \<open>a\<close>, \<open>b\<close>.\<close>

definition ratio_ge_pow2 :: "int \<Rightarrow> int \<Rightarrow> int \<Rightarrow> bool" where
  "ratio_ge_pow2 a b k =
     (if 0 \<le> k then b * 2 ^ nat k \<le> a else b \<le> a * 2 ^ nat (- k))"

text \<open>The binary exponent of the quotient: \<open>\<lfloor>log\<^sub>2 (a / b)\<rfloor>\<close> for positive \<open>a\<close>, \<open>b\<close>.\<close>

definition quotient_exponent :: "int \<Rightarrow> int \<Rightarrow> int" where
  "quotient_exponent a b =
     (let d = bitlen a - bitlen b
      in if ratio_ge_pow2 a b d then d else d - 1)"

definition int_true_divide :: "int \<Rightarrow> int \<Rightarrow> py_error + pyfloat" where
  "int_true_divide a b =
     (if b = 0 then Inl ZeroDivisionError
      else if a = 0 then Inr (0, 0)
      else
        let s = sgn a * sgn b;
            x = \<bar>a\<bar>;
            y = \<bar>b\<bar>;
            e = max (quotient_exponent x y - 52) (- 1074);
            m = (if 0 \<le> e then round_half_even x (y * 2 ^ nat e)
                 else round_half_even (x * 2 ^ nat (- e)) y)
        in if 0 \<le> e \<and> 2 ^ 1024 \<le> m * 2 ^ nat e then Inl OverflowError
           else Inr (s * m, e))"

definition math_ceil :: "pyfloat \<Rightarrow> int" where
  "math_ceil f = (case f of (m, e) \<Rightarrow>
     if 0 \<le> e then m * 2 ^ nat e else - ((- m) div 2 ^ nat (- e)))"

definition math_floor :: "pyfloat \<Rightarrow> int" where
  "math_floor f = (case f of (m, e) \<Rightarrow>
     if 0 \<le> e then m * 2 ^ nat e else m div 2 ^ nat (- e))"

subsection \<open>The pipeline driver's counts: \<open>recompute_samples_stats\<close>\<close>

text \<open>The fields of \<open>args\<close> that the functions modelled here read.\<close>

record args =
  batch_size :: int
  world_size :: int
  workers :: int
  train_num_samples :: "int option"

text \<open>
  \<open>recompute_samples_stats(args, floor, num_samples)\<close> (the flag is \<open>use_floor\<close> here) returns
  \<open>(num_samples, num_batches, num_worker_batches)\<close>. The same eight lines stand in
  \<open>get_wds_dataset\<close> and \<open>get_pile_dataset\<close>.
\<close>

definition recompute_samples_stats :: "'a args_scheme \<Rightarrow> bool \<Rightarrow> int \<Rightarrow> py_error + (int \<times> int \<times> int)" where
  "recompute_samples_stats args use_floor num_samples =
     (let round_fn = (if use_floor then math_floor else math_ceil);
          global_batch_size = batch_size args * world_size args
      in case int_true_divide num_samples global_batch_size of
           Inl err \<Rightarrow> Inl err
         | Inr q1 \<Rightarrow>
             let num_batches = round_fn q1;
                 num_workers = max 1 (workers args)
             in case int_true_divide num_batches num_workers of
                  Inl err \<Rightarrow> Inl err
                | Inr q2 \<Rightarrow>
                    let num_worker_batches = round_fn q2;
                        num_batches' = num_worker_batches * num_workers;
                        num_samples' = num_batches' * global_batch_size
                    in Inr (num_samples', num_batches', num_worker_batches))"

subsection \<open>Dataset size: \<open>get_dataset_size\<close> and \<open>get_shard_stats\<close>\<close>

text \<open>
  The two files that may lie next to the shards: \<open>sizes.json\<close>, a JSON object from shard
  basename to element count, and \<open>__len__\<close>, one integer. \<open>None\<close> stands for a file that
  does not exist. The shard pattern is taken after brace expansion (\<open>shards_list\<close>).
\<close>

record sidecar_files =
  sizes_json :: "(string \<times> int) list option"
  len_file :: "int option"

definition basename :: "string \<Rightarrow> string" where
  "basename path = rev (takeWhile (\<lambda>c. c \<noteq> CHR ''/'') (rev path))"

definition get_dataset_size :: "sidecar_files \<Rightarrow> string list \<Rightarrow> int option \<times> int" where
  "get_dataset_size files shards_list =
     (let total_size =
            (case sizes_json files of
               Some sizes \<Rightarrow>
                 Some (sum_list (map (\<lambda>shard. case map_of sizes (basename shard) of
                                                   Some n \<Rightarrow> n | None \<Rightarrow> 0) shards_list))
             | None \<Rightarrow>
                 (case len_file files of
                    Some n \<Rightarrow> Some n
                  | None \<Rightarrow> None));
          num_shards = int (length shards_list)
      in (total_size, num_shards))"

text \<open>Python's truth value of \<open>num_samples\<close>: \<open>None\<close> and \<open>0\<close> are false.\<close>

definition truthy :: "int option \<Rightarrow> bool" where
  "truthy v = (case v of None \<Rightarrow> False | Some n \<Rightarrow> n \<noteq> 0)"

definition num_samples_message :: string where
  "num_samples_message =
     ''Currently, number of dataset samples must be specified for training dataset. '' @
     ''Please specify via `--train-num-samples` if no dataset length info present.''"

text \<open>
  \<open>get_shard_stats\<close> calls \<open>get_dataset_size\<close> and then sets \<open>num_samples = None\<close>
  (line 794) before it tests it; \<open>get_wds_dataset\<close> and \<open>get_pile_dataset\<close> start with
  the same five lines.
\<close>

definition get_shard_stats :: "'a args_scheme \<Rightarrow> sidecar_files \<Rightarrow> string list \<Rightarrow> py_error + (int \<times> int)" where
  "get_shard_stats args files input_shards =
     (case get_dataset_size files input_shards of
        (num_samples_of_files, num_shards) \<Rightarrow>
          let num_samples = (None :: int option) in
          if \<not> truthy num_samples then
            (case train_num_samples args of
               None \<Rightarrow> Inl (RuntimeError num_samples_message)
             | Some n \<Rightarrow>
                 if n = 0 then Inl (RuntimeError num_samples_message)
                 else Inr (n, num_shards))
          else
            (case num_samples of
               None \<Rightarrow> Inl (RuntimeError num_samples_message)
             | Some n \<Rightarrow> Inr (n, num_shards)))"

subsection \<open>The sample grouper: \<open>group_by_keys_nothrow\<close>\<close>

text \<open>
  The tar expander yields one dictionary per archive member, with the keys \<open>fname\<close>,
  \<open>data\<close> and \<open>__url__\<close>. A grouped sample is a dictionary from \<open>__key__\<close>, \<open>__url__\<close> and
  the suffixes to their values, kept as an association list in insertion order. Names and
  payloads are byte strings.
\<close>

record filesample =
  fname :: string
  data :: string
  url :: string

type_synonym sample = "(string \<times> string) list"

fun dict_set :: "('k \<times> 'v) list \<Rightarrow> 'k \<Rightarrow> 'v \<Rightarrow> ('k \<times> 'v) list" where
  "dict_set [] k v = [(k, v)]"
| "dict_set ((k', v') # d) k v =
     (if k' = k then (k, v) # d else (k', v') # dict_set d k v)"

definition dict_keys :: "('k \<times> 'v) list \<Rightarrow> 'k set" where
  "dict_keys d = fst ` set d"

text \<open>
  Modelled from the spec: \<open>valid_sample\<close> is imported from webdataset and not part of the
  repository. The spec's grouper emits the accumulator "if it contains at least one valid
  field"; the library tests that the sample is a non-empty dictionary that is not marked
  \<open>__bad__\<close>.
\<close>

definition valid_sample :: "sample option \<Rightarrow> bool" where
  "valid_sample s =
     (case s of
        None \<Rightarrow> False
      | Some d \<Rightarrow> d \<noteq> [] \<and> (case map_of d ''__bad__'' of None \<Rightarrow> True | Some v \<Rightarrow> v = []))"

text \<open>
  Modelled from the spec: \<open>base_plus_ext\<close> is imported from webdataset and not part of the
  repository; it is the default of the parameter \<open>keys\<close>. It splits a member name at
  the first dot of its last path component into prefix and suffix, as the pattern
  \<^verbatim>\<open>^((?:.*/|)[^.]+)[.]([^/]*)$\<close> does on names without line breaks, and returns nothing
  for a name that the pattern does not match.
\<close>

definition base_plus_ext :: "string \<Rightarrow> (string \<times> string) option" where
  "base_plus_ext path =
     (let base = basename path;
          dir = take (length path - length base) path;
          stem = takeWhile (\<lambda>c. c \<noteq> CHR ''.'') base;
          ext = drop (length stem + 1) base
      in if CHR ''.'' \<notin> set base then None
         else if stem \<noteq> [] then Some (dir @ stem, ext)
         else if dir = [] then None
         else if CHR ''.'' \<in> set (basename (butlast dir)) then None
         else Some (dir, ext))"

text \<open>\<open>str.lower\<close> on the ASCII letters.\<close>

definition lower_char :: "char \<Rightarrow> char" where
  "lower_char c =
     (let n = (of_char c :: nat)
      in if 65 \<le> n \<and> n \<le> 90 then char_of (n + 32) else c)"

definition lower :: "string \<Rightarrow> string" where
  "lower s = map lower_char s"

text \<open>
  The loop of \<open>group_by_keys_nothrow\<close>, with \<open>current_sample\<close> as an argument; the
  result is the list of the samples it yields.
\<close>

fun group_by_keys_loop ::
  "(string \<Rightarrow> (string \<times> string) option) \<Rightarrow> bool \<Rightarrow> string list option \<Rightarrow>
   sample option \<Rightarrow> filesample list \<Rightarrow> sample list" where
  "group_by_keys_loop keys lcase suffixes current_sample [] =
     (case current_sample of
        None \<Rightarrow> []
      | Some cur \<Rightarrow> if valid_sample (Some cur) then [cur] else [])"
| "group_by_keys_loop keys lcase suffixes current_sample (f # rest) =
     (case keys (fname f) of
        None \<Rightarrow> group_by_keys_loop keys lcase suffixes current_sample rest
      | Some (prefix, suffix0) \<Rightarrow>
          let suffix = (if lcase then lower suffix0 else suffix0);
              fresh = [(''__key__'', prefix), (''__url__'', url f)];
              store = (\<lambda>cur. if suffixes = None \<or> suffix \<in> set (case suffixes of None \<Rightarrow> [] | Some l \<Rightarrow> l)
                              then dict_set cur suffix (data f) else cur)
          in case current_sample of
               None \<Rightarrow> group_by_keys_loop keys lcase suffixes (Some (store fresh)) rest
             | Some cur \<Rightarrow>
                 if map_of cur ''__key__'' \<noteq> Some prefix \<or> suffix \<in> dict_keys cur
                 then (if valid_sample (Some cur) then [cur] else [])
                      @ group_by_keys_loop keys lcase suffixes (Some (store fresh)) rest
                 else group_by_keys_loop keys lcase suffixes (Some (store cur)) rest)"

definition group_by_keys_nothrow ::
  "(string \<Rightarrow> (string \<times> string) option) \<Rightarrow> bool \<Rightarrow> string list option \<Rightarrow>
   filesample list \<Rightarrow> sample list" where
  "group_by_keys_nothrow keys lcase suffixes data_stream =
     group_by_keys_loop keys lcase suffixes None data_stream"

definition filter_no_caption_or_no_image :: "sample \<Rightarrow> bool" where
  "filter_no_caption_or_no_image s =
     (''txt'' \<in> dict_keys s \<and>
      (''png'' \<in> dict_keys s \<or> ''jpg'' \<in> dict_keys s \<or> ''jpeg'' \<in> dict_keys s))"

subsection \<open>Pipeline stages of webdataset: \<open>map\<close>, \<open>select\<close>, \<open>batched\<close>\<close>

text \<open>
  A stage is a generator over the generator before it. What a generator does is the list
  of the items it yields and, when an exception ends it, that exception.
\<close>

type_synonym 'a stream = "'a list \<times> py_error option"

text \<open>
  A handler is called with the exception: it returns a truth value (continue with the next
  item, or stop) or raises. \<open>log_and_continue\<close> logs a warning and returns \<open>True\<close>;
  \<open>reraise_exception\<close> is the default handler of webdataset.
\<close>

type_synonym handler = "py_error \<Rightarrow> py_error + bool"

definition log_and_continue :: handler where
  "log_and_continue exn = Inr True"

definition reraise_exception :: handler where
  "reraise_exception exn = Inl exn"

text \<open>
  Modelled from the spec: \<open>wds.map\<close>, \<open>wds.select\<close> and \<open>wds.batched\<close> are stages of
  webdataset and not part of the repository. \<open>map(f, handler)\<close> applies \<open>f\<close> to every item;
  when \<open>f\<close> raises, the handler decides: "emit nothing for this input" and continue, stop,
  or let the exception escape. The exception of the stream before is passed on.
\<close>

fun wds_map_loop :: "('a \<Rightarrow> py_error + 'b) \<Rightarrow> handler \<Rightarrow> py_error option \<Rightarrow> 'a list \<Rightarrow> 'b stream" where
  "wds_map_loop f h upstream [] = ([], upstream)"
| "wds_map_loop f h upstream (x # xs) =
     (case f x of
        Inr y \<Rightarrow> (case wds_map_loop f h upstream xs of (ys, exn) \<Rightarrow> (y # ys, exn))
      | Inl exn \<Rightarrow>
          (case h exn of
             Inl raised \<Rightarrow> ([], Some raised)
           | Inr continue \<Rightarrow> if continue then wds_map_loop f h upstream xs else ([], None)))"

definition wds_map :: "('a \<Rightarrow> py_error + 'b) \<Rightarrow> handler \<Rightarrow> 'a stream \<Rightarrow> 'b stream" where
  "wds_map f h src = wds_map_loop f h (snd src) (fst src)"

definition wds_select :: "('a \<Rightarrow> bool) \<Rightarrow> 'a stream \<Rightarrow> 'a stream" where
  "wds_select predicate src = (filter predicate (fst src), snd src)"

text \<open>
  Modelled from the spec: \<open>wds.batched\<close> is the batch assembler, a stage of webdataset.
  \<open>batched(batchsize, partial)\<close> "accumulates exactly \<open>batchSize\<close> consecutive accepted
  samples and emits one batch"; the library yields the batch when the next sample arrives
  and, at the end of the stream, yields what is left if it is a full batch or \<open>partial\<close>
  is set ("a trailing group smaller than \<open>batchSize\<close> at stream end is discarded" without
  it). The collation, which stacks the samples of a batch, keeps their number and is left
  out: a batch is the list of its samples.
\<close>

fun batched_loop :: "int \<Rightarrow> bool \<Rightarrow> py_error option \<Rightarrow> 'a list \<Rightarrow> 'a list \<Rightarrow> 'a list stream" where
  "batched_loop batchsize partial upstream batch [] =
     (case upstream of
        Some exn \<Rightarrow> ([], Some exn)
      | None \<Rightarrow>
          (if batch = [] then []
           else if int (length batch) = batchsize \<or> partial then [batch]
           else [], None))"
| "batched_loop batchsize partial upstream batch (sample # rest) =
     (if batchsize \<le> int (length batch)
      then (case batched_loop batchsize partial upstream [sample] rest of
              (batches, exn) \<Rightarrow> (batch # batches, exn))
      else batched_loop batchsize partial upstream (batch @ [sample]) rest)"

definition batched :: "int \<Rightarrow> bool \<Rightarrow> 'a stream \<Rightarrow> 'a list stream" where
  "batched batchsize partial src = batched_loop batchsize partial (snd src) [] (fst src)"

text \<open>
  \<open>add_interleaved_data_processing_step\<close> (lines 705 to 713): the stages behind the sample
  shuffle of the interleaved pipeline. \<open>to_tuple("json")\<close>, a webdataset stage with the
  default handler, is the parameter \<open>to_tuple_json\<close>.
\<close>

definition add_interleaved_data_processing_step ::
  "'x args_scheme \<Rightarrow> ('t \<Rightarrow> py_error + 'p) \<Rightarrow> (sample \<Rightarrow> py_error + 't) \<Rightarrow> sample stream \<Rightarrow> 'p list stream" where
  "add_interleaved_data_processing_step args preprocess_json_fn to_tuple_json src =
     batched (batch_size args) False
       (wds_map (\<lambda>x. Inr x) reraise_exception
          (wds_map preprocess_json_fn log_and_continue
             (wds_map to_tuple_json reraise_exception src)))"

text \<open>
  Modelled from the spec: \<open>wds.map_tuple\<close>, a stage of webdataset, applies one function to
  each component of an item, under the handler of \<open>map\<close>. A batch of pairs is collated to
  the pair of the list of images and the list of captions before the two preprocessing
  functions are applied to it.
\<close>

definition wds_map_tuple ::
  "('a list \<Rightarrow> py_error + 'c) \<Rightarrow> ('b list \<Rightarrow> py_error + 'd) \<Rightarrow> handler \<Rightarrow>
   ('a \<times> 'b) list stream \<Rightarrow> ('c \<times> 'd) stream" where
  "wds_map_tuple f g h src =
     wds_map (\<lambda>batch. case f (map fst batch) of
                          Inl exn \<Rightarrow> Inl exn
                        | Inr c \<Rightarrow> (case g (map snd batch) of
                                       Inl exn \<Rightarrow> Inl exn
                                     | Inr d \<Rightarrow> Inr (c, d))) h src"

text \<open>
  The stages of \<open>get_wds_dataset\<close> behind the sample shuffle (lines 500 to 510).
  \<open>decode("pilrgb")\<close> and \<open>to_tuple("jpg;png;jpeg", "txt")\<close>, stages of webdataset, are
  parameters.
\<close>

definition wds_dataset_processing_step ::
  "'x args_scheme \<Rightarrow> (sample \<Rightarrow> py_error + 'dec) \<Rightarrow> ('dec \<Rightarrow> py_error + ('img \<times> string)) \<Rightarrow>
   ('img list \<Rightarrow> py_error + 'c) \<Rightarrow> (string list \<Rightarrow> py_error + 'd) \<Rightarrow>
   sample stream \<Rightarrow> ('c \<times> 'd) stream" where
  "wds_dataset_processing_step args decode_pilrgb to_tuple_image_txt
       preprocess_image_fn preprocess_text_fn src =
     wds_map_tuple preprocess_image_fn preprocess_text_fn log_and_continue
       (batched (batch_size args) False
          (wds_map to_tuple_image_txt log_and_continue
             (wds_map decode_pilrgb log_and_continue
                (wds_select filter_no_caption_or_no_image src))))"

subsection \<open>Text helpers\<close>

text \<open>
  Text is modelled as ASCII: \<open>is_space\<close> is the class \<^verbatim>\<open>\s\<close> and \<open>is_word\<close> the class
  \<^verbatim>\<open>\w\<close> of Python's \<open>re\<close> on the ASCII characters.
\<close>

definition is_space :: "char \<Rightarrow> bool" where
  "is_space c = (let n = (of_char c :: nat) in (9 \<le> n \<and> n \<le> 13) \<or> (28 \<le> n \<and> n \<le> 32))"

definition is_word :: "char \<Rightarrow> bool" where
  "is_word c =
     (let n = (of_char c :: nat)
      in (48 \<le> n \<and> n \<le> 57) \<or> (65 \<le> n \<and> n \<le> 90) \<or> n = 95 \<or> (97 \<le> n \<and> n \<le> 122))"

text \<open>\<open>re.sub(p+, " ", s)\<close> for a character class \<open>p\<close>: every maximal run becomes one space.\<close>

fun sub_runs :: "(char \<Rightarrow> bool) \<Rightarrow> bool \<Rightarrow> string \<Rightarrow> string" where
  "sub_runs p in_run [] = []"
| "sub_runs p in_run (c # cs) =
     (if p c then (if in_run then sub_runs p True cs else CHR '' '' # sub_runs p True cs)
      else c # sub_runs p False cs)"

definition remove_consecutive_spaces :: "string \<Rightarrow> string" where
  "remove_consecutive_spaces sentence = sub_runs is_space False sentence"

definition remove_multiple_newline_limiters :: "string \<Rightarrow> string" where
  "remove_multiple_newline_limiters sentence = sub_runs (\<lambda>c. c = CHR '' '') False sentence"

definition preprocess_sentence :: "string \<Rightarrow> string" where
  "preprocess_sentence sentence =
     remove_multiple_newline_limiters (remove_consecutive_spaces sentence)"

text \<open>\<open>re.match(r"^\W+$", s)\<close>: the string is not empty and has no word character.\<close>

definition is_punctuation :: "string \<Rightarrow> bool" where
  "is_punctuation s = (s \<noteq> [] \<and> list_all (\<lambda>c. \<not> is_word c) s)"

definition strip :: "string \<Rightarrow> string" where
  "strip s = rev (dropWhile is_space (rev (dropWhile is_space s)))"

fun join :: "string \<Rightarrow> string list \<Rightarrow> string" where
  "join sep [] = []"
| "join sep [x] = x"
| "join sep (x # y # ys) = x @ sep @ join sep (y # ys)"

text \<open>\<open>s.replace(old, new, 1)\<close> and \<open>s.replace(old, new)\<close> for a non-empty \<open>old\<close>.\<close>

fun replace_first :: "string \<Rightarrow> string \<Rightarrow> string \<Rightarrow> string" where
  "replace_first old new [] = []"
| "replace_first old new (c # cs) =
     (if take (length old) (c # cs) = old then new @ drop (length old) (c # cs)
      else c # replace_first old new cs)"

function replace_all :: "string \<Rightarrow> string \<Rightarrow> string \<Rightarrow> string" where
  "replace_all old new [] = []"
| "replace_all old new (c # cs) =
     (if old \<noteq> [] \<and> take (length old) (c # cs) = old
      then new @ replace_all old new (drop (length old) (c # cs))
      else c # replace_all old new cs)"
  by pat_completeness auto
termination
  by (relation "measure (\<lambda>(old, new, s). length s)") auto

text \<open>The text of a sample after the markers are in place (lines 313 to 320, 609 to 614).\<close>

definition finish_text :: "string \<Rightarrow> string list \<Rightarrow> string" where
  "finish_text eos parts =
     (let text = join '' '' parts;
          text = replace_first ''<|endofchunk|>'' [] text;
          text = replace_all '' <|endofchunk|>'' ''<|endofchunk|>'' text;
          text = replace_all ''<image> '' ''<image>'' text;
          text = replace_all '' <image>'' ''<image>'' text
      in text @ ''<|endofchunk|>'' @ eos)"

subsection \<open>The tokenizer and the image processor\<close>

text \<open>
  Modelled from the spec: the tokenizer and the image encoder are external collaborators,
  "consumed as pure functions". \<open>encode\<close> gives the token ids of a text, special tokens
  included. Called with \<open>truncation\<close> and \<open>padding="max_length"\<close> the tokenizer returns
  \<open>max_length\<close> ids and the attention mask of the same length; called on a list with
  \<open>padding="longest"\<close> it pads every row to the longest row.
\<close>

record tokenizer =
  encode :: "string \<Rightarrow> int list"
  pad_token_id :: int
  eos_token :: string

definition pad_row :: "tokenizer \<Rightarrow> nat \<Rightarrow> int list \<Rightarrow> int list \<times> int list" where
  "pad_row tok n ids =
     (ids @ replicate (n - length ids) (pad_token_id tok),
      replicate (length ids) 1 @ replicate (n - length ids) 0)"

definition tokenize_max_length :: "tokenizer \<Rightarrow> nat \<Rightarrow> string \<Rightarrow> int list \<times> int list" where
  "tokenize_max_length tok max_length text = pad_row tok max_length (take max_length (encode tok text))"

definition tokenize_longest :: "tokenizer \<Rightarrow> nat \<Rightarrow> string list \<Rightarrow> int list list \<times> int list list" where
  "tokenize_longest tok max_length texts =
     (let rows = map (\<lambda>t. take max_length (encode tok t)) texts;
          longest = fold max (map length rows) 0;
          padded = map (pad_row tok longest) rows
      in (map fst padded, map snd padded))"

text \<open>
  An image has its size, \<open>(width, height)\<close>. The image processor gives one row of pixel
  values for every image; the random flip and colour jitter act on the rows and keep their
  number. \<open>zero_image\<close> is a row of \<open>torch.zeros((k, 3, 224, 224))\<close>.
\<close>

record image =
  image_size :: "nat \<times> nat"
  image_data :: string

record 'pix image_processor =
  pixel_values :: "image \<Rightarrow> 'pix"
  augment :: "'pix \<Rightarrow> 'pix"
  zero_image :: "'pix"

definition preprocess_image :: "image list \<Rightarrow> 'pix image_processor \<Rightarrow> 'pix list" where
  "preprocess_image sample image_processor =
     map (\<lambda>im. augment image_processor (pixel_values image_processor im)) sample"

definition preprocess_text :: "string list \<Rightarrow> tokenizer \<Rightarrow> int list list \<times> int list list" where
  "preprocess_text sample tok =
     tokenize_longest tok 32
       (map (\<lambda>s. ''<image>'' @ strip s @ ''<|endofchunk|>'' @ eos_token tok) sample)"

subsection \<open>The span-masking preprocessor: \<open>preprocess_pile\<close>\<close>

text \<open>
  What \<open>preprocess_pile\<close> takes from outside: the UTF-8 decoding of the payload, nltk's
  \<open>sent_tokenize\<close>, and the two random draws of torch. \<open>rand_le n i\<close> says whether
  component \<open>i\<close> of \<open>torch.rand(n)\<close> is at most 0.7, and \<open>randperm k\<close> is the result of
  \<open>torch.randperm(k)\<close>, a permutation of \<open>0, ..., k - 1\<close>.
\<close>

record pile_env =
  decode_utf8 :: "string \<Rightarrow> py_error + string"
  sent_tokenize :: "string \<Rightarrow> string list"
  rand_le :: "nat \<Rightarrow> nat \<Rightarrow> bool"
  randperm :: "nat \<Rightarrow> nat list"

text \<open>Lines 274 to 287: the sentences of the sample that are not only punctuation.\<close>

definition pile_sentences :: "pile_env \<Rightarrow> string \<Rightarrow> py_error + string list" where
  "pile_sentences env payload =
     (case decode_utf8 env payload of
        Inl exn \<Rightarrow> Inl exn
      | Inr sample \<Rightarrow>
          let sample = remove_consecutive_spaces sample;
              sample = remove_multiple_newline_limiters sample;
              sentences = sent_tokenize env sample;
              sentences = filter (\<lambda>s. \<not> is_punctuation s) sentences
          in if length sentences = 0 then Inl (ValueError ''No sentences in sample'')
             else Inr sentences)"

definition count_true :: "bool list \<Rightarrow> nat" where
  "count_true flags = length (filter (\<lambda>b. b) flags)"

definition nonzero :: "bool list \<Rightarrow> nat list" where
  "nonzero flags = filter (\<lambda>i. flags ! i) [0..<length flags]"

text \<open>
  Lines 289 to 302: \<open>indices_replaced\<close> for \<open>n\<close> sentences. More than ten marks are cut
  down: the marks at the first \<open>overflowing\<close> positions of a random permutation of the
  marked indices are cleared. An index tensor that reaches out of range raises IndexError.
\<close>

definition mark_sentences :: "pile_env \<Rightarrow> nat \<Rightarrow> py_error + bool list" where
  "mark_sentences env n =
     (let indices_replaced = map (rand_le env n) [0..<n]
      in if count_true indices_replaced = 0 then Inl (ValueError ''No sentences to mask'')
         else if 10 < count_true indices_replaced then
           (let true_indices = nonzero indices_replaced;
                overflowing = count_true indices_replaced - 10;
                chosen = take overflowing (randperm env (length true_indices))
            in if list_all (\<lambda>p. p < length true_indices) chosen
               then Inr (fold (\<lambda>p flags. flags[true_indices ! p := False]) chosen indices_replaced)
               else Inl IndexError)
         else Inr indices_replaced)"

text \<open>
  \<open>preprocess_pile(sample, tokenizer, clip_processor)\<close>; \<open>clip_tokenizer\<close> is
  \<open>clip_processor.tokenizer\<close>. The result is
  \<open>((clip input_ids, clip attention_mask), (text input_ids, text attention_mask))\<close>; a
  tensor of two dimensions is the list of its rows.
\<close>

definition preprocess_pile ::
  "pile_env \<Rightarrow> string \<Rightarrow> tokenizer \<Rightarrow> tokenizer \<Rightarrow>
   py_error + ((int list list \<times> int list list) \<times> (int list list \<times> int list list))" where
  "preprocess_pile env payload tok clip_tokenizer =
     (case pile_sentences env payload of
        Inl exn \<Rightarrow> Inl exn
      | Inr sentences \<Rightarrow>
          (case mark_sentences env (length sentences) of
             Inl exn \<Rightarrow> Inl exn
           | Inr indices_replaced \<Rightarrow>
               let chosen_sentences =
                     map (\<lambda>i. strip (sentences ! i))
                       (filter (\<lambda>i. indices_replaced ! i) [0..<length indices_replaced]);
                   sentences =
                     map (\<lambda>i. if indices_replaced ! i
                               then ''<|endofchunk|><image>'' @ sentences ! i
                               else sentences ! i) [0..<length sentences];
                   text = finish_text (eos_token tok) sentences;
                   text_tensor = tokenize_max_length tok 256 text;
                   clip_rows = map (tokenize_max_length clip_tokenizer 24) chosen_sentences;
                   zero_padding = replicate (10 - length chosen_sentences) (replicate 24 0);
                   clip_input_ids =
                     (if length chosen_sentences < 10 then map fst clip_rows @ zero_padding
                      else map fst clip_rows);
                   clip_attention_mask =
                     (if length chosen_sentences < 10 then map snd clip_rows @ zero_padding
                      else map snd clip_rows)
               in Inr ((clip_input_ids, clip_attention_mask),
                       ([fst text_tensor], [snd text_tensor]))))"

subsection \<open>The interleaved preprocessor: \<open>preprocess_interleaved_sample\<close>\<close>

text \<open>
  A document is the dictionary with the keys \<open>interleaved_list\<close> and \<open>is_image\<close>.
  An entry of \<open>interleaved_list\<close> is a string (a text, or an image in base64) until
  \<open>remove_unwanted_images\<close> replaces the image strings by the decoded images. The flags of
  \<open>is_image\<close> are JSON numbers; zero is false. \<open>parse_image\<close> (base64 and PIL) is a
  parameter: it returns the image or raises.
\<close>

datatype segment = Str string | Img image

record interleaved_sample =
  sample_interleaved_list :: "string list"
  sample_is_image :: "int list"

definition is_unwanted_image :: "image \<Rightarrow> bool" where
  "is_unwanted_image im = (fst (image_size im) \<le> 10 \<or> snd (image_size im) \<le> 10)"

text \<open>
  The loop of \<open>remove_unwanted_images\<close> over \<open>zip(interleaved_list, is_image_list)\<close>, with
  \<open>num_images\<close> as an argument. It returns the count and the two lists as they are after
  the loop; entries behind the shorter list stay as they are.
\<close>

fun remove_unwanted_images_loop ::
  "(string \<Rightarrow> py_error + image) \<Rightarrow> nat \<Rightarrow> string list \<Rightarrow> int list \<Rightarrow>
   py_error + (nat \<times> segment list \<times> int list)" where
  "remove_unwanted_images_loop parse_image num_images [] flags = Inr (num_images, [], flags)"
| "remove_unwanted_images_loop parse_image num_images (x # xs) [] =
     Inr (num_images, map Str (x # xs), [])"
| "remove_unwanted_images_loop parse_image num_images (x # xs) (flag # flags) =
     (if flag \<noteq> 0 then
        (case parse_image x of
           Inl exn \<Rightarrow> Inl exn
         | Inr im \<Rightarrow>
             let is_unwanted = is_unwanted_image im;
                 num_images = (if \<not> is_unwanted then num_images + 1 else num_images)
             in case remove_unwanted_images_loop parse_image num_images xs flags of
                  Inl exn \<Rightarrow> Inl exn
                | Inr (n, segs, fl) \<Rightarrow>
                    if is_unwanted \<or> 5 < num_images then Inr (n, Str [] # segs, 0 # fl)
                    else Inr (n, Img im # segs, flag # fl))
      else
        (case remove_unwanted_images_loop parse_image num_images xs flags of
           Inl exn \<Rightarrow> Inl exn
         | Inr (n, segs, fl) \<Rightarrow> Inr (n, Str x # segs, flag # fl)))"

definition remove_unwanted_images ::
  "(string \<Rightarrow> py_error + image) \<Rightarrow> string list \<Rightarrow> int list \<Rightarrow>
   py_error + (nat \<times> segment list \<times> int list)" where
  "remove_unwanted_images parse_image interleaved_list is_image_list =
     remove_unwanted_images_loop parse_image 0 interleaved_list is_image_list"

text \<open>
  The loops of \<open>preprocess_sentences\<close> and \<open>remove_punctuation_based_sentences\<close> assign
  \<open>interleaved_list[i] = g(interleaved_list[i])\<close> where the flag is false. \<open>re.sub\<close> and
  \<open>re.match\<close> raise TypeError on an image.
\<close>

fun update_texts :: "(string \<Rightarrow> string) \<Rightarrow> segment list \<Rightarrow> int list \<Rightarrow> py_error + segment list" where
  "update_texts g [] flags = Inr []"
| "update_texts g (x # xs) [] = Inr (x # xs)"
| "update_texts g (x # xs) (flag # flags) =
     (if flag = 0 then
        (case x of
           Img im \<Rightarrow> Inl TypeError
         | Str s \<Rightarrow> (case update_texts g xs flags of
                        Inl exn \<Rightarrow> Inl exn
                      | Inr r \<Rightarrow> Inr (Str (g s) # r)))
      else
        (case update_texts g xs flags of
           Inl exn \<Rightarrow> Inl exn
         | Inr r \<Rightarrow> Inr (x # r)))"

definition remove_punctuation_based_sentences ::
  "segment list \<Rightarrow> int list \<Rightarrow> py_error + (segment list \<times> int list)" where
  "remove_punctuation_based_sentences interleaved_list is_image_list =
     (case update_texts (\<lambda>s. if is_punctuation s then [] else s) interleaved_list is_image_list of
        Inl exn \<Rightarrow> Inl exn
      | Inr l \<Rightarrow> Inr (l, is_image_list))"

definition filter_out_empty_sentences ::
  "segment list \<Rightarrow> int list \<Rightarrow> segment list \<times> int list" where
  "filter_out_empty_sentences interleaved_list is_image_list =
     (let kept = filter (\<lambda>(interleaved_input, flag). \<not> interleaved_input = Str [])
                   (zip interleaved_list is_image_list)
      in (map fst kept, map snd kept))"

definition preprocess_sentences ::
  "segment list \<Rightarrow> int list \<Rightarrow> py_error + (nat \<times> segment list \<times> int list)" where
  "preprocess_sentences interleaved_list is_image_list =
     (case update_texts preprocess_sentence interleaved_list is_image_list of
        Inl exn \<Rightarrow> Inl exn
      | Inr l1 \<Rightarrow>
          (case remove_punctuation_based_sentences l1 is_image_list of
             Inl exn \<Rightarrow> Inl exn
           | Inr (l2, flags2) \<Rightarrow>
               (case filter_out_empty_sentences l2 flags2 of
                  (l3, flags3) \<Rightarrow>
                    if length l3 = length flags3 then Inr (length l3, l3, flags3)
                    else Inl (AssertionError
                      ''lengths of the interleaved and is_image list should be same''))))"

text \<open>
  The loop of \<open>substitute_with_image_tag\<close>: the images, and the list with the marker in
  their places. An entry with a true flag that is not an image cannot be processed later
  (TypeError).
\<close>

fun substitute_loop :: "segment list \<Rightarrow> int list \<Rightarrow> py_error + (image list \<times> segment list)" where
  "substitute_loop [] flags = Inr ([], [])"
| "substitute_loop (x # xs) [] = Inr ([], x # xs)"
| "substitute_loop (x # xs) (flag # flags) =
     (case substitute_loop xs flags of
        Inl exn \<Rightarrow> Inl exn
      | Inr (images, l) \<Rightarrow>
          if flag \<noteq> 0 then
            (case x of
               Img im \<Rightarrow> Inr (im # images, Str ''<|endofchunk|><image>'' # l)
             | Str s \<Rightarrow> Inl TypeError)
          else Inr (images, x # l))"

definition substitute_with_image_tag ::
  "segment list \<Rightarrow> int list \<Rightarrow> py_error + (image list \<times> segment list \<times> int list)" where
  "substitute_with_image_tag interleaved_list is_image_list =
     (case substitute_loop interleaved_list is_image_list of
        Inl exn \<Rightarrow> Inl exn
      | Inr (images, l) \<Rightarrow>
          if 0 < length images then Inr (images, l, is_image_list)
          else Inl (AssertionError ''images should be >1''))"

text \<open>\<open>" ".join\<close> raises TypeError on a list with an image in it.\<close>

fun segment_texts :: "segment list \<Rightarrow> py_error + string list" where
  "segment_texts [] = Inr []"
| "segment_texts (Str s # xs) =
     (case segment_texts xs of Inl exn \<Rightarrow> Inl exn | Inr r \<Rightarrow> Inr (s # r))"
| "segment_texts (Img im # xs) = Inl TypeError"

definition prepare_text_data :: "segment list \<Rightarrow> tokenizer \<Rightarrow> py_error + (int list list \<times> int list list)" where
  "prepare_text_data interleaved_list text_tokenizer =
     (case segment_texts interleaved_list of
        Inl exn \<Rightarrow> Inl exn
      | Inr parts \<Rightarrow>
          let text = finish_text (eos_token text_tokenizer) parts;
              text_tensor = tokenize_max_length text_tokenizer 256 text
          in Inr ([fst text_tensor], [snd text_tensor]))"

definition prepare_image_data :: "image list \<Rightarrow> 'pix image_processor \<Rightarrow> 'pix list" where
  "prepare_image_data image_list image_processor =
     (let images_tensor = preprocess_image image_list image_processor
      in if length image_list < 5
         then images_tensor @ replicate (5 - length image_list) (zero_image image_processor)
         else images_tensor)"

definition preprocess_interleaved_sample ::
  "(string \<Rightarrow> py_error + image) \<Rightarrow> interleaved_sample \<Rightarrow> tokenizer \<Rightarrow> 'pix image_processor \<Rightarrow>
   py_error + ('pix list \<times> (int list list \<times> int list list))" where
  "preprocess_interleaved_sample parse_image sample text_tokenizer image_processor =
     (case remove_unwanted_images parse_image (sample_interleaved_list sample) (sample_is_image sample) of
        Inl exn \<Rightarrow> Inl exn
      | Inr (num_images, l1, flags1) \<Rightarrow>
          if num_images = 0 then Inl (ValueError ''No images in sample'')
          else
            (case preprocess_sentences l1 flags1 of
               Inl exn \<Rightarrow> Inl exn
             | Inr (num_sentences, l2, flags2) \<Rightarrow>
                 if num_sentences = 0 then Inl (ValueError ''No sentences in sample'')
                 else
                   (case substitute_with_image_tag l2 flags2 of
                      Inl exn \<Rightarrow> Inl exn
                    | Inr (images, l3, flags3) \<Rightarrow>
                        (case prepare_text_data l3 text_tokenizer of
                           Inl exn \<Rightarrow> Inl exn
                         | Inr text_tensor \<Rightarrow>
                             Inr (prepare_image_data images image_processor, text_tensor)))))"

text \<open>
  \<open>preprocess_interleaved_json\<close>: the payload of the \<open>json\<close> field is decoded and parsed
  (\<open>json_loads\<close>, a parameter that returns the document or raises) and handed on.
\<close>

definition preprocess_interleaved_json ::
  "(string \<Rightarrow> py_error + interleaved_sample) \<Rightarrow> (string \<Rightarrow> py_error + image) \<Rightarrow>
   string \<Rightarrow> tokenizer \<Rightarrow> 'pix image_processor \<Rightarrow>
   py_error + ('pix list \<times> (int list list \<times> int list list))" where
  "preprocess_interleaved_json json_loads parse_image payload text_tokenizer image_processor =
     (case json_loads payload of
        Inl exn \<Rightarrow> Inl exn
      | Inr sample \<Rightarrow>
          preprocess_interleaved_sample parse_image sample text_tokenizer image_processor)"

subsection \<open>The shared epoch and the random generator\<close>

text \<open>
  \<open>SharedEpoch\<close> keeps the epoch in \<open>multiprocessing.Value("i", epoch)\<close>, a C \<open>int\<close> in
  shared memory: 32 bits, read back as a signed number.
\<close>

record SharedEpoch =
  shared_epoch :: "32 word"

definition SharedEpoch_init :: "int \<Rightarrow> SharedEpoch" where
  "SharedEpoch_init epoch = \<lparr>shared_epoch = word_of_int epoch\<rparr>"

definition set_value :: "SharedEpoch \<Rightarrow> int \<Rightarrow> SharedEpoch" where
  "set_value self epoch = self\<lparr>shared_epoch := word_of_int epoch\<rparr>"

definition get_value :: "SharedEpoch \<Rightarrow> int" where
  "get_value self = sint (shared_epoch self)"

text \<open>
  The field \<open>epoch\<close> of a stage is the shared cell, whose content is read when the stage
  runs, or a number that the stage counts up by itself.
\<close>

datatype epoch_field = Shared SharedEpoch | Local int

text \<open>
  Python's \<open>random.Random\<close> is a parameter: \<open>seed_rng n\<close> is the state of a generator
  after \<open>rng.seed(n)\<close>, and \<open>randbelow r n\<close> is a draw below \<open>n\<close> in state \<open>r\<close> with the state
  after it. \<open>rng.randint(0, n - 1)\<close> and the index of \<open>rng.choice\<close> are such draws; the
  generator returns a number below \<open>n\<close> for every positive \<open>n\<close> (\<open>randbelow_ok\<close>).
\<close>

record 'r py_random =
  seed_rng :: "int \<Rightarrow> 'r"
  randbelow :: "'r \<Rightarrow> nat \<Rightarrow> nat \<times> 'r"

definition randbelow_ok :: "'r py_random \<Rightarrow> bool" where
  "randbelow_ok rnd = (\<forall>r n. 0 < n \<longrightarrow> fst (randbelow rnd r n) < n)"

text \<open>
  The seed of the worker process: \<open>get_worker_info()\<close> of torch gives the seed of a
  dataloader worker or nothing, and \<open>wds.utils.pytorch_worker_seed()\<close> is the fallback.
\<close>

record worker_env =
  worker_info_seed :: "int option"
  wds_worker_seed :: int

definition pytorch_worker_seed :: "worker_env \<Rightarrow> int" where
  "pytorch_worker_seed env =
     (case worker_info_seed env of
        Some s \<Rightarrow> s
      | None \<Rightarrow> wds_worker_seed env)"

subsection \<open>The deterministic shuffle: \<open>detshuffle2\<close>\<close>

text \<open>
  Modelled from the spec: \<open>_shuffle\<close> and \<open>pick\<close> are functions of webdataset and not part
  of the repository. The spec's shuffle is "a bounded reservoir shuffle: maintain a buffer
  of capacity \<open>bufsize\<close>; fill it to \<open>initial\<close> elements before emitting anything;
  thereafter, for each new incoming element, emit one uniformly-chosen buffered element and
  insert the new one in its place; at stream end, drain the buffer in random order". As
  the library does it: \<open>initial\<close> is capped at \<open>bufsize\<close>; every round of the loop appends
  the next sample, appends one more while the buffer is below \<open>bufsize\<close>, and picks one
  element once the buffer holds \<open>initial\<close> elements; \<open>pick\<close> draws an index with
  \<open>rng.randint(0, len(buf) - 1)\<close>, which is in range (\<open>randbelow_ok\<close>), moves the last
  element into its place and returns the element that was there.

  Every yield is written down with the number of elements that the buffer held when the
  element was picked.
\<close>

definition pick :: "'r py_random \<Rightarrow> 'a list \<Rightarrow> 'r \<Rightarrow> 'a \<times> 'a list \<times> 'r" where
  "pick rnd buf r =
     (case randbelow rnd r (length buf) of
        (k, r') \<Rightarrow> (buf ! k, butlast (buf[k := last buf]), r'))"

text \<open>
  Modelled from the spec: \<open>refill\<close> is the step of \<open>_shuffle\<close> that fills the buffer,
  \<open>try: buf.append(next(data))\<close> in the library: it moves one more sample into a buffer
  that is below \<open>bufsize\<close>, if there is one.
\<close>

definition refill :: "int \<Rightarrow> 'a list \<Rightarrow> 'a list \<Rightarrow> 'a list \<times> 'a list" where
  "refill bufsize buf rest =
     (if int (length buf) < bufsize then
        (case rest of
           [] \<Rightarrow> (buf, [])
         | x # rest' \<Rightarrow> (buf @ [x], rest'))
      else (buf, rest))"

text \<open>
  Modelled from the spec: the loop of \<open>_shuffle\<close> over the data, with the buffer and the
  state of the generator as arguments. It returns its yields, and the buffer and the state
  of the generator at the end of the data.
\<close>

function shuffle_loop ::
  "'r py_random \<Rightarrow> int \<Rightarrow> int \<Rightarrow> 'a list \<Rightarrow> 'r \<Rightarrow> 'a list \<Rightarrow> (nat \<times> 'a) list \<times> 'a list \<times> 'r" where
  "shuffle_loop rnd bufsize initial buf r [] = ([], buf, r)"
| "shuffle_loop rnd bufsize initial buf r (sample # rest) =
     (case refill bufsize (buf @ [sample]) rest of
        (buf2, rest2) \<Rightarrow>
          if initial \<le> int (length buf2) then
            (case pick rnd buf2 r of
               (y, buf3, r') \<Rightarrow>
                 (case shuffle_loop rnd bufsize initial buf3 r' rest2 of
                    (yields, buf', r'') \<Rightarrow> ((length buf2, y) # yields, buf', r'')))
          else shuffle_loop rnd bufsize initial buf2 r rest2)"
  by pat_completeness auto
termination
  by (relation "measure (\<lambda>(rnd, bufsize, initial, buf, r, src). length src)")
     (auto simp: refill_def split: if_splits list.splits)

text \<open>
  Modelled from the spec: the end of \<open>_shuffle\<close>, \<open>while len(buf) > 0: yield pick(buf, rng)\<close>
  in the library.
\<close>

function drain :: "'r py_random \<Rightarrow> 'a list \<Rightarrow> 'r \<Rightarrow> (nat \<times> 'a) list \<times> 'r" where
  "drain rnd buf r =
     (if 0 < length buf then
        (case pick rnd buf r of
           (y, buf', r') \<Rightarrow>
             (case drain rnd buf' r' of
                (yields, r'') \<Rightarrow> ((length buf, y) # yields, r'')))
      else ([], r))"
  by pat_completeness auto
termination
  by (relation "measure (\<lambda>(rnd, buf, r). length buf)") (auto simp: pick_def split: prod.splits)

declare drain.simps [simp del]

text \<open>
  Modelled from the spec: the yields of \<open>_shuffle(data, bufsize, initial, rng)\<close>, those of
  the loop over the data and those after the data has ended ("at stream end, drain the
  buffer"), and the stream of the samples it yields.
\<close>

definition shuffle_yields ::
  "'r py_random \<Rightarrow> 'a list \<Rightarrow> int \<Rightarrow> int \<Rightarrow> 'r \<Rightarrow> (nat \<times> 'a) list \<times> (nat \<times> 'a) list" where
  "shuffle_yields rnd src bufsize initial r =
     (let initial = min initial bufsize
      in case shuffle_loop rnd bufsize initial [] r src of
           (yields, buf, r') \<Rightarrow> (yields, fst (drain rnd buf r')))"

definition wds_shuffle :: "'r py_random \<Rightarrow> 'a list \<Rightarrow> int \<Rightarrow> int \<Rightarrow> 'r \<Rightarrow> 'a list" where
  "wds_shuffle rnd src bufsize initial r =
     (case shuffle_yields rnd src bufsize initial r of
        (yields, drained) \<Rightarrow> map snd yields @ map snd drained)"

record detshuffle2 =
  bufsize :: int
  initial :: int
  seed :: int
  epoch :: epoch_field

text \<open>
  \<open>detshuffle2.run(src)\<close> in the worker \<open>env\<close>: the shuffled stream and the stage after
  the call (a stage that counts its own epoch has counted one up).
\<close>

definition run :: "'r py_random \<Rightarrow> worker_env \<Rightarrow> detshuffle2 \<Rightarrow> 'a list \<Rightarrow> 'a list \<times> detshuffle2" where
  "run rnd env self src =
     (let self' = (case epoch self of
                     Shared cell \<Rightarrow> self
                   | Local n \<Rightarrow> self\<lparr>epoch := Local (n + 1)\<rparr>);
          epoch_value = (case epoch self' of
                           Shared cell \<Rightarrow> get_value cell
                         | Local n \<Rightarrow> n);
          seed_value = (if seed self < 0 then pytorch_worker_seed env + epoch_value
                        else seed self + epoch_value);
          rng = seed_rng rnd seed_value
      in (wds_shuffle rnd src (bufsize self) (initial self) rng, self'))"

subsection \<open>The resampling shard source: \<open>ResampledShards2\<close>\<close>

text \<open>
  The fields of a \<open>ResampledShards2\<close>: \<open>urls\<close> after \<open>expand_urls\<close>, and \<open>rng\<close>, the state of
  its own generator. \<open>worker_seed\<close> is a function of the worker.
\<close>

record 'r ResampledShards2 =
  urls :: "string list"
  nshards :: int
  rng :: 'r
  worker_seed :: "worker_env \<Rightarrow> int"
  deterministic :: bool
  rs_epoch :: epoch_field

text \<open>
  The constructor; \<open>fresh\<close> is the state of the unseeded \<open>random.Random()\<close>. The assertion
  on \<open>self.urls[0]\<close> raises IndexError for an empty list.
\<close>

definition ResampledShards2_init ::
  "'r \<Rightarrow> string list \<Rightarrow> int \<Rightarrow> (worker_env \<Rightarrow> int) option \<Rightarrow> bool \<Rightarrow> epoch_field \<Rightarrow>
   py_error + 'r ResampledShards2" where
  "ResampledShards2_init fresh expanded_urls n seed_fn det ep =
     (if expanded_urls = [] then Inl IndexError
      else Inr \<lparr>urls = expanded_urls, nshards = n, rng = fresh,
                worker_seed = (case seed_fn of None \<Rightarrow> pytorch_worker_seed | Some f \<Rightarrow> f),
                deterministic = det, rs_epoch = ep\<rparr>)"

text \<open>\<open>rng.choice(seq)\<close>: IndexError on an empty sequence.\<close>

definition choice :: "'r py_random \<Rightarrow> 'r \<Rightarrow> 'a list \<Rightarrow> py_error + ('a \<times> 'r)" where
  "choice rnd r xs =
     (if xs = [] then Inl IndexError
      else case randbelow rnd r (length xs) of (k, r') \<Rightarrow> Inr (xs ! k, r'))"

text \<open>\<open>n\<close> rounds of the loop \<open>for _ in range(self.nshards): yield dict(url=...)\<close>.\<close>

fun resample_loop :: "'r py_random \<Rightarrow> string list \<Rightarrow> 'r \<Rightarrow> nat \<Rightarrow> py_error + (string list \<times> 'r)" where
  "resample_loop rnd us r 0 = Inr ([], r)"
| "resample_loop rnd us r (Suc n) =
     (case choice rnd r us of
        Inl exn \<Rightarrow> Inl exn
      | Inr (u, r') \<Rightarrow>
          (case resample_loop rnd us r' n of
             Inl exn \<Rightarrow> Inl exn
           | Inr (rest, r'') \<Rightarrow> Inr (u # rest, r'')))"

text \<open>
  \<open>ResampledShards2.__iter__\<close> in the worker \<open>env\<close>, run to its end: the urls of the
  dictionaries it yields, and the object after the iteration.
\<close>

definition iter ::
  "'r py_random \<Rightarrow> worker_env \<Rightarrow> 'r ResampledShards2 \<Rightarrow> py_error + (string list \<times> 'r ResampledShards2)" where
  "iter rnd env self =
     (let self' = (case rs_epoch self of
                     Shared cell \<Rightarrow> self
                   | Local n \<Rightarrow> self\<lparr>rs_epoch := Local (n + 1)\<rparr>);
          epoch_value = (case rs_epoch self' of
                           Shared cell \<Rightarrow> get_value cell
                         | Local n \<Rightarrow> n);
          r = (if deterministic self then seed_rng rnd (worker_seed self env + epoch_value)
               else rng self)
      in case resample_loop rnd (urls self) r (nat (nshards self)) of
           Inl exn \<Rightarrow> Inl exn
         | Inr (out, r') \<Rightarrow> Inr (out, self'\<lparr>rng := r'\<rparr>))"

text \<open>
  A small generator for the examples: the state is a number, a draw below \<open>n\<close> is the
  state modulo \<open>n\<close>, and the state moves on by a linear congruence.
\<close>

definition example_random :: "int py_random" where
  "example_random =
     \<lparr>seed_rng = (\<lambda>n. \<bar>n\<bar>),
      randbelow = (\<lambda>r n. (nat (r mod int n), (r * 75 + 74) mod 65537))\<rparr>"

subsection \<open>Notions for the statements, and stand-ins for the examples\<close>

text \<open>
  The images of a document that decode and pass the icon filter, in the order of the
  document.
\<close>

definition wanted_images :: "(string \<Rightarrow> py_error + image) \<Rightarrow> string list \<Rightarrow> int list \<Rightarrow> image list" where
  "wanted_images parse_image interleaved_list is_image_list =
     concat (map (\<lambda>(x, flag). if flag \<noteq> 0
                                 then (case parse_image x of
                                         Inl exn \<Rightarrow> []
                                       | Inr im \<Rightarrow> if is_unwanted_image im then [] else [im])
                                 else [])
                 (zip interleaved_list is_image_list))"

text \<open>The images that a list of segments holds under true flags.\<close>

definition flagged_images :: "segment list \<Rightarrow> int list \<Rightarrow> image list" where
  "flagged_images segs flags =
     concat (map (\<lambda>(x, flag). case x of Img im \<Rightarrow> if flag \<noteq> 0 then [im] else [] | Str s \<Rightarrow> [])
                 (zip segs flags))"

text \<open>A list of segments in which the images are the entries with a true flag.\<close>

definition well_flagged :: "segment list \<Rightarrow> int list \<Rightarrow> bool" where
  "well_flagged segs flags =
     list_all (\<lambda>(x, flag). case x of Img im \<Rightarrow> flag \<noteq> 0 | Str s \<Rightarrow> flag = 0) (zip segs flags)"

text \<open>\<open>torch.randperm(k)\<close> returns a permutation of \<open>0, ..., k - 1\<close>.\<close>

definition randperm_ok :: "pile_env \<Rightarrow> bool" where
  "randperm_ok env = (\<forall>k. mset (randperm env k) = mset [0..<k])"

text \<open>
  Stand-ins for the examples. The image decoder reads the size of an image off its
  payload: \<open>icon\<close> is 8 by 8 pixels, \<open>broken\<close> does not decode, every other payload is an
  image of 64 by 48 pixels. The tokenizer gives one token for every character. Sentences
  are split at \<open>|\<close>, the random draws mark every sentence, and the permutation is the
  reversal.
\<close>

definition example_parse_image :: "string \<Rightarrow> py_error + image" where
  "example_parse_image s =
     (if s = ''broken'' then Inl DecodeError
      else if s = ''icon'' then Inr \<lparr>image_size = (8, 8), image_data = s\<rparr>
      else Inr \<lparr>image_size = (64, 48), image_data = s\<rparr>)"

definition example_tokenizer :: tokenizer where
  "example_tokenizer = \<lparr>encode = map of_char, pad_token_id = 0, eos_token = ''</s>''\<rparr>"

definition example_image_processor :: "string image_processor" where
  "example_image_processor = \<lparr>pixel_values = image_data, augment = (\<lambda>p. p), zero_image = []\<rparr>"

fun split_on :: "char \<Rightarrow> string \<Rightarrow> string list" where
  "split_on c [] = [[]]"
| "split_on c (x # xs) =
     (if x = c then [] # split_on c xs
      else (case split_on c xs of
              [] \<Rightarrow> [[x]]
            | w # ws \<Rightarrow> (x # w) # ws))"

definition example_pile_env :: pile_env where
  "example_pile_env =
     \<lparr>decode_utf8 = Inr,
      sent_tokenize = split_on CHR ''|'',
      rand_le = (\<lambda>n i. True),
      randperm = (\<lambda>k. rev [0..<k])\<rparr>"

section \<open>Properties\<close>

subsection \<open>Rounding of the true division\<close>

lemma rhe_bounds:
  assumes "0 < d"
  shows "n div d \<le> round_half_even n d" and "round_half_even n d \<le> n div d + 1"
  by (simp_all add: round_half_even_def Let_def)

lemma rhe_lower:
  assumes d: "0 < d" and h: "(2 * t + 1) * d < 2 * n"
  shows "t + 1 \<le> round_half_even n d"
proof -
  define q where "q = n div d"
  define r where "r = n mod d"
  have n: "n = q * d + r" by (simp add: q_def r_def)
  have r: "0 \<le> r" "r < d" using d by (simp_all add: r_def)
  show ?thesis
  proof (cases "t < q")
    case True
    then show ?thesis using rhe_bounds(1)[OF d, of n] by (simp add: q_def)
  next
    case False
    have "\<not> q < t"
    proof
      assume "q < t"
      then have "q + 1 \<le> t" by simp
      then have "(q + 1) * d \<le> t * d" using d by (simp only: mult_le_cancel_right) simp
      with h n r show False by (simp add: algebra_simps)
    qed
    with False have qt: "q = t" by simp
    with h n have "d < 2 * r" by (simp add: algebra_simps)
    then have "round_half_even n d = q + 1"
      by (simp add: round_half_even_def Let_def q_def r_def)
    with qt show ?thesis by simp
  qed
qed

lemma rhe_upper:
  assumes d: "0 < d" and h: "2 * n < (2 * t + 1) * d"
  shows "round_half_even n d \<le> t"
proof -
  define q where "q = n div d"
  define r where "r = n mod d"
  have n: "n = q * d + r" by (simp add: q_def r_def)
  have r: "0 \<le> r" "r < d" using d by (simp_all add: r_def)
  show ?thesis
  proof (cases "q < t")
    case True
    then show ?thesis using rhe_bounds(2)[OF d, of n] by (simp add: q_def)
  next
    case False
    have "\<not> t < q"
    proof
      assume "t < q"
      then have "t + 1 \<le> q" by simp
      then have "(t + 1) * d \<le> q * d" using d by (simp only: mult_le_cancel_right) simp
      with h n r show False by (simp add: algebra_simps)
    qed
    with False have qt: "q = t" by simp
    with h n have "2 * r < d" by (simp add: algebra_simps)
    then have "round_half_even n d = q"
      by (simp add: round_half_even_def Let_def q_def r_def)
    with qt show ?thesis by simp
  qed
qed

lemma quotient_exponent_lower:
  assumes a: "0 < a" and b: "0 < b"
  shows "ratio_ge_pow2 a b (quotient_exponent a b)"
proof (cases "ratio_ge_pow2 a b (bitlen a - bitlen b)")
  case True
  then show ?thesis by (simp add: quotient_exponent_def)
next
  case False
  then have k: "quotient_exponent a b = bitlen a - bitlen b - 1"
    by (simp add: quotient_exponent_def)
  have la: "2 ^ nat (bitlen a - 1) \<le> a" using bitlen_bounds[OF a] by simp
  have lb: "b < 2 ^ nat (bitlen b)" using bitlen_bounds[OF b] by simp
  have pa: "1 \<le> bitlen a" using a bitlen_eq_zero_iff[of a] bitlen_nonneg[of a] by linarith
  have pb: "1 \<le> bitlen b" using b bitlen_eq_zero_iff[of b] bitlen_nonneg[of b] by linarith
  show ?thesis
  proof (cases "0 \<le> bitlen a - bitlen b - 1")
    case True
    have "nat (bitlen a - 1) = nat (bitlen b) + nat (bitlen a - bitlen b - 1)"
      using True pa pb by linarith
    then have "(2::int) ^ nat (bitlen a - 1) = 2 ^ nat (bitlen b) * 2 ^ nat (bitlen a - bitlen b - 1)"
      by (simp add: power_add)
    moreover have "b * 2 ^ nat (bitlen a - bitlen b - 1) \<le> 2 ^ nat (bitlen b) * 2 ^ nat (bitlen a - bitlen b - 1)"
      using lb by (simp add: mult_right_mono)
    ultimately have "b * 2 ^ nat (bitlen a - bitlen b - 1) \<le> a" using la by linarith
    then show ?thesis using True by (simp add: k ratio_ge_pow2_def)
  next
    case False
    have "nat (bitlen b) = nat (bitlen a - 1) + nat (- (bitlen a - bitlen b - 1))"
      using False pa pb by linarith
    then have "(2::int) ^ nat (bitlen b) = 2 ^ nat (bitlen a - 1) * 2 ^ nat (- (bitlen a - bitlen b - 1))"
      by (simp only: power_add)
    moreover have "2 ^ nat (bitlen a - 1) * 2 ^ nat (- (bitlen a - bitlen b - 1)) \<le> a * 2 ^ nat (- (bitlen a - bitlen b - 1))"
      using la by (simp add: mult_right_mono)
    ultimately have "b \<le> a * 2 ^ nat (- (bitlen a - bitlen b - 1))" using lb by linarith
    then show ?thesis using False by (simp add: k ratio_ge_pow2_def)
  qed
qed

text \<open>For a dividend below \<open>2 ^ 53\<close> the exponent is not positive and \<open>b < 2 * 2 ^ (- e)\<close>.\<close>

lemma scale_bound:
  assumes a: "0 < a" "a < 2 ^ 53" and b: "0 < b" "b < 2 ^ 1075"
  defines "e \<equiv> max (quotient_exponent a b - 52) (- 1074)"
  shows "e \<le> 0" and "b < 2 * 2 ^ nat (- e)"
proof -
  define k where "k = quotient_exponent a b"
  have K: "ratio_ge_pow2 a b k" unfolding k_def by (rule quotient_exponent_lower) fact+
  have k52: "k \<le> 52"
  proof (rule ccontr)
    assume "\<not> k \<le> 52"
    then have k53: "53 \<le> k" by simp
    then have "b * 2 ^ nat k \<le> a" using K by (simp add: ratio_ge_pow2_def)
    moreover have "(2::int) ^ 53 \<le> 2 ^ nat k" using k53 by (intro power_increasing) auto
    moreover have "1 * (2::int) ^ nat k \<le> b * 2 ^ nat k" using b by (intro mult_right_mono) auto
    ultimately show False using a by linarith
  qed
  then show "e \<le> 0" by (simp add: e_def k_def)
  show "b < 2 * 2 ^ nat (- e)"
  proof (cases "k - 52 \<le> - 1074")
    case True
    then have "e = - 1074" by (simp add: e_def k_def)
    then show ?thesis using b by simp
  next
    case False
    then have e: "e = k - 52" by (simp add: e_def k_def)
    show ?thesis
    proof (cases "0 \<le> k")
      case True
      have "nat 53 = nat k + nat (53 - k)" using True k52 by linarith
      then have p: "(2::int) ^ 53 = 2 ^ nat k * 2 ^ nat (53 - k)"
        by (metis nat_numeral power_add)
      have "b * 2 ^ nat k \<le> a" using K True by (simp add: ratio_ge_pow2_def)
      with a have "b * 2 ^ nat k < 2 ^ nat (53 - k) * 2 ^ nat k" using p by (simp add: mult.commute)
      then have "b < 2 ^ nat (53 - k)" by (simp only: mult_less_cancel_right) simp
      moreover have "nat (53 - k) = Suc (nat (- e))" using e k52 by linarith
      ultimately show ?thesis by simp
    next
      case False
      then have s1: "b \<le> a * 2 ^ nat (- k)" using K by (simp add: ratio_ge_pow2_def)
      have s2: "a * 2 ^ nat (- k) < 2 ^ 53 * 2 ^ nat (- k)"
        by (rule mult_strict_right_mono) (use a in auto)
      have "nat (53 - k) = 53 + nat (- k)" using False by linarith
      then have s3: "(2::int) ^ nat (53 - k) = 2 ^ 53 * 2 ^ nat (- k)" by (simp only: power_add)
      have s4: "nat (53 - k) = Suc (nat (- e))" using e k52 by linarith
      have "b < 2 ^ nat (53 - k)" using s1 s2 s3 by linarith
      then show ?thesis unfolding s4 by simp
    qed
  qed
qed

lemma rhe_floor_window:
  assumes b: "0 < b" and E: "0 < E" and bE: "b < 2 * E"
  shows "a div b * E \<le> round_half_even (a * E) b"
    and "round_half_even (a * E) b < (a div b + 1) * E"
proof -
  define q where "q = a div b"
  define r where "r = a mod b"
  have a: "a = q * b + r" by (simp add: q_def r_def)
  have r: "0 \<le> r" "r < b" using b by (simp_all add: r_def)
  have rE: "0 \<le> r * E" using r E by simp
  have aE: "a * E = q * b * E + r * E" by (simp add: a algebra_simps)
  have "(2 * (q * E - 1) + 1) * b < 2 * (q * b * E + r * E)"
    using rE b by (simp add: algebra_simps)
  then have "(2 * (q * E - 1) + 1) * b < 2 * (a * E)" by (simp only: aE)
  from rhe_lower[OF b this] show "a div b * E \<le> round_half_even (a * E) b"
    by (simp add: q_def)
  have "r + 1 \<le> b" using r by simp
  then have "(r + 1) * E \<le> b * E" using E by (simp only: mult_le_cancel_right) simp
  then have "2 * (q * b * E + r * E) < (2 * ((q + 1) * E - 1) + 1) * b"
    using bE by (simp add: algebra_simps)
  then have "2 * (a * E) < (2 * ((q + 1) * E - 1) + 1) * b" by (simp only: aE)
  from rhe_upper[OF b this] show "round_half_even (a * E) b < (a div b + 1) * E"
    by (simp add: q_def)
qed

lemma rhe_ceil_window:
  assumes b: "0 < b" and E: "0 < E" and bE: "b < 2 * E"
  shows "(- ((- a) div b) - 1) * E < round_half_even (a * E) b"
    and "round_half_even (a * E) b \<le> - ((- a) div b) * E"
proof -
  define c where "c = - ((- a) div b)"
  define r where "r = (- a) mod b"
  have "- a = (- a) div b * b + (- a) mod b" by simp
  then have "a = - ((- a) div b) * b - (- a) mod b" by linarith
  then have a: "a = c * b - r" by (simp only: c_def r_def)
  have r: "0 \<le> r" "r < b" using b by (simp_all add: r_def)
  have rE: "0 \<le> r * E" using r E by simp
  have aE: "a * E = c * b * E - r * E" by (simp add: a algebra_simps)
  have "r + 1 \<le> b" using r by simp
  then have "(r + 1) * E \<le> b * E" using E by (simp only: mult_le_cancel_right) simp
  then have "(2 * ((c - 1) * E) + 1) * b < 2 * (c * b * E - r * E)"
    using bE by (simp add: algebra_simps)
  then have "(2 * ((c - 1) * E) + 1) * b < 2 * (a * E)" by (simp only: aE)
  from rhe_lower[OF b this] show "(- ((- a) div b) - 1) * E < round_half_even (a * E) b"
    by (simp add: c_def)
  have "2 * (c * b * E - r * E) < (2 * (c * E) + 1) * b"
    using rE b by (simp add: algebra_simps)
  then have "2 * (a * E) < (2 * (c * E) + 1) * b" by (simp only: aE)
  from rhe_upper[OF b this] show "round_half_even (a * E) b \<le> - ((- a) div b) * E"
    by (simp add: c_def)
qed

lemma int_true_divide_small:
  assumes a: "0 < a" "a < 2 ^ 53" and b: "0 < b" "b < 2 ^ 1075"
  shows "\<exists>e. e \<le> 0 \<and> b < 2 * 2 ^ nat (- e) \<and>
             int_true_divide a b = Inr (round_half_even (a * 2 ^ nat (- e)) b, e)"
proof -
  define e where "e = max (quotient_exponent a b - 52) (- 1074)"
  have e0: "e \<le> 0" and bE: "b < 2 * 2 ^ nat (- e)"
    using scale_bound[OF a b] by (simp_all add: e_def)
  define m where "m = round_half_even (a * 2 ^ nat (- e)) b"
  have m_alt: "(if 0 \<le> e then round_half_even a (b * 2 ^ nat e)
                else round_half_even (a * 2 ^ nat (- e)) b) = m"
    using e0 by (cases "e = 0") (simp_all add: m_def)
  have "m < (a div b + 1) * 2 ^ nat (- e)"
    unfolding m_def by (rule rhe_floor_window(2)[OF b(1) _ bE]) simp
  have no_overflow: "\<not> (0 \<le> e \<and> 2 ^ 1024 \<le> m * 2 ^ nat e)"
  proof
    assume h: "0 \<le> e \<and> 2 ^ 1024 \<le> m * 2 ^ nat e"
    with e0 have "e = 0" by simp
    have "a div b \<le> a" using a b by (intro int_div_le_self) simp_all
    with \<open>m < (a div b + 1) * 2 ^ nat (- e)\<close> \<open>e = 0\<close> have "m \<le> a" by simp
    with h \<open>e = 0\<close> a show False by simp
  qed
  have "int_true_divide a b =
          (if 0 \<le> e \<and> 2 ^ 1024 \<le> (if 0 \<le> e then round_half_even a (b * 2 ^ nat e)
                else round_half_even (a * 2 ^ nat (- e)) b) * 2 ^ nat e then Inl OverflowError
           else Inr ((if 0 \<le> e then round_half_even a (b * 2 ^ nat e)
                else round_half_even (a * 2 ^ nat (- e)) b), e))"
    using a(1) b(1) by (simp add: int_true_divide_def Let_def e_def[symmetric])
  also have "\<dots> = (if 0 \<le> e \<and> 2 ^ 1024 \<le> m * 2 ^ nat e then Inl OverflowError else Inr (m, e))"
    by (simp only: m_alt)
  also have "\<dots> = Inr (m, e)"
    by (rule if_not_P[OF no_overflow])
  finally have "int_true_divide a b = Inr (m, e)" .
  with e0 bE show ?thesis unfolding m_def by blast
qed

lemma math_floor_true_divide:
  assumes a: "0 < a" "a < 2 ^ 53" and b: "0 < b" "b < 2 ^ 1075"
  shows "\<exists>f. int_true_divide a b = Inr f \<and> math_floor f = a div b"
proof -
  from int_true_divide_small[OF a b] obtain e where e: "e \<le> 0" "b < 2 * 2 ^ nat (- e)"
    and d: "int_true_divide a b = Inr (round_half_even (a * 2 ^ nat (- e)) b, e)" by blast
  define E :: int where "E = 2 ^ nat (- e)"
  define m where "m = round_half_even (a * E) b"
  have E: "0 < E" by (simp add: E_def)
  have lo: "a div b * E \<le> m" and hi: "m < (a div b + 1) * E"
    unfolding m_def using rhe_floor_window[OF b(1) E, of a] e(2) by (simp_all add: E_def)
  have "m = E * (a div b) + (m - a div b * E)" by (simp add: algebra_simps)
  then have "m div E = a div b"
    by (rule int_div_pos_eq) (use lo hi in \<open>simp_all add: algebra_simps\<close>)
  moreover have "math_floor (m, e) = m div E"
    using e(1) by (cases "e = 0") (simp_all add: math_floor_def E_def)
  ultimately show ?thesis using d by (simp add: m_def E_def)
qed

lemma math_ceil_true_divide:
  assumes a: "0 < a" "a < 2 ^ 53" and b: "0 < b" "b < 2 ^ 1075"
  shows "\<exists>f. int_true_divide a b = Inr f \<and> math_ceil f = - ((- a) div b)"
proof -
  from int_true_divide_small[OF a b] obtain e where e: "e \<le> 0" "b < 2 * 2 ^ nat (- e)"
    and d: "int_true_divide a b = Inr (round_half_even (a * 2 ^ nat (- e)) b, e)" by blast
  define E :: int where "E = 2 ^ nat (- e)"
  define m where "m = round_half_even (a * E) b"
  define c where "c = - ((- a) div b)"
  have E: "0 < E" by (simp add: E_def)
  have lo: "(c - 1) * E < m" and hi: "m \<le> c * E"
    unfolding m_def c_def using rhe_ceil_window[OF b(1) E, of a] e(2) by (simp_all add: E_def)
  have "- m = E * (- c) + (c * E - m)" by (simp add: algebra_simps)
  then have "(- m) div E = - c"
    by (rule int_div_pos_eq) (use lo hi in \<open>simp_all add: algebra_simps\<close>)
  moreover have "math_ceil (m, e) = - ((- m) div E)"
    using e(1) by (cases "e = 0") (simp_all add: math_ceil_def E_def)
  ultimately show ?thesis using d by (simp add: m_def E_def c_def)
qed

lemma int_true_divide_error:
  "int_true_divide a b = Inl err \<Longrightarrow> b \<noteq> 0 \<Longrightarrow> err = OverflowError"
  by (auto simp: int_true_divide_def Let_def split: if_splits)

lemma ceil_div_bounds:
  fixes a b :: int
  assumes b: "0 < b"
  shows "a \<le> - ((- a) div b) * b" and "(- ((- a) div b) - 1) * b < a"
proof -
  have e: "- a = (- a) div b * b + (- a) mod b" by simp
  have r: "0 \<le> (- a) mod b" "(- a) mod b < b" using b by simp_all
  have m: "- ((- a) div b) * b = - ((- a) div b * b)"
    "(- ((- a) div b) - 1) * b = - ((- a) div b * b) - b" by (simp_all add: algebra_simps)
  show "a \<le> - ((- a) div b) * b" unfolding m using e r by linarith
  show "(- ((- a) div b) - 1) * b < a" unfolding m using e r by linarith
qed

lemma floor_div_bounds:
  fixes a b :: int
  assumes b: "0 < b"
  shows "a div b * b \<le> a"
proof -
  have e: "a = a div b * b + a mod b" by simp
  have r: "0 \<le> a mod b" using b by simp
  show ?thesis using e r by linarith
qed

lemma recompute_samples_stats_Inr:
  assumes "recompute_samples_stats args use_floor num_samples = Inr (ns, nb, nwb)"
  shows "nb = nwb * max 1 (workers args)"
    and "ns = nb * (batch_size args * world_size args)"
  using assms unfolding recompute_samples_stats_def Let_def
  by (auto split: sum.splits)

lemma recompute_samples_stats_Inl:
  assumes "recompute_samples_stats args use_floor num_samples = Inl err"
      and "batch_size args * world_size args \<noteq> 0"
  shows "err = OverflowError"
proof -
  have w: "max 1 (workers args) \<noteq> 0" by simp
  show ?thesis
    using assms(1) unfolding recompute_samples_stats_def Let_def
    by (auto split: sum.splits dest: int_true_divide_error[OF _ assms(2)] int_true_divide_error[OF _ w])
qed


lemma recompute_ceil_small:
  assumes bs: "0 < batch_size args" and ws: "0 < world_size args" and wk: "0 < workers args"
      and n: "0 < num_samples" "num_samples < 2 ^ 53"
      and gs: "batch_size args * world_size args < 2 ^ 1075" and wks: "workers args < 2 ^ 1075"
  shows "\<exists>ns nb nwb. recompute_samples_stats args False num_samples = Inr (ns, nb, nwb)
           \<and> num_samples \<le> ns"
proof -
  define g where "g = batch_size args * world_size args"
  define w where "w = workers args"
  define c1 where "c1 = - ((- num_samples) div g)"
  define c2 where "c2 = - ((- c1) div w)"
  have g: "0 < g" using bs ws by (simp add: g_def)
  have w: "0 < w" "max 1 (workers args) = w" using wk by (simp_all add: w_def)
  from math_ceil_true_divide[OF n g gs[folded g_def]]
  obtain f1 where f1: "int_true_divide num_samples g = Inr f1" "math_ceil f1 = c1"
    unfolding c1_def by blast
  have c1_hi: "num_samples \<le> c1 * g" and c1_lo: "(c1 - 1) * g < num_samples"
    unfolding c1_def using ceil_div_bounds[OF g, of num_samples] by simp_all
  have c1_pos: "0 < c1"
  proof (rule ccontr)
    assume "\<not> 0 < c1"
    then have "c1 * g \<le> 0" using g by (simp add: mult_le_0_iff)
    with c1_hi n show False by simp
  qed
  have "(c1 - 1) * 1 \<le> (c1 - 1) * g" using c1_pos g by (intro mult_left_mono) simp_all
  with c1_lo n have c1_small: "c1 < 2 ^ 53" by simp
  from math_ceil_true_divide[OF c1_pos c1_small w(1) wks[folded w_def]]
  obtain f2 where f2: "int_true_divide c1 w = Inr f2" "math_ceil f2 = c2"
    unfolding c2_def by blast
  have c2_hi: "c1 \<le> c2 * w" unfolding c2_def using ceil_div_bounds(1)[OF w(1), of c1] by simp
  have r: "recompute_samples_stats args False num_samples = Inr (c2 * w * g, c2 * w, c2)"
    by (simp add: recompute_samples_stats_def Let_def g_def[symmetric] f1 w(2) f2)
  have "c1 * g \<le> c2 * w * g" using c2_hi g by (intro mult_right_mono) simp_all
  with c1_hi have "num_samples \<le> c2 * w * g" by simp
  with r show ?thesis by blast
qed

lemma int_true_divide_zero: "b \<noteq> 0 \<Longrightarrow> int_true_divide 0 b = Inr (0, 0)"
  by (simp add: int_true_divide_def)

lemma recompute_floor_small:
  assumes bs: "0 < batch_size args" and ws: "0 < world_size args" and wk: "0 < workers args"
      and n: "0 < num_samples" "num_samples < 2 ^ 53"
      and gs: "batch_size args * world_size args < 2 ^ 1075" and wks: "workers args < 2 ^ 1075"
  shows "\<exists>ns nb nwb. recompute_samples_stats args True num_samples = Inr (ns, nb, nwb)
           \<and> ns \<le> num_samples"
proof -
  define g where "g = batch_size args * world_size args"
  define w where "w = workers args"
  define q1 where "q1 = num_samples div g"
  define q2 where "q2 = q1 div w"
  have g: "0 < g" using bs ws by (simp add: g_def)
  have w: "0 < w" "max 1 (workers args) = w" using wk by (simp_all add: w_def)
  from math_floor_true_divide[OF n g gs[folded g_def]]
  obtain f1 where f1: "int_true_divide num_samples g = Inr f1" "math_floor f1 = q1"
    unfolding q1_def by blast
  have q1_lo: "q1 * g \<le> num_samples" unfolding q1_def by (rule floor_div_bounds[OF g])
  have q1_nonneg: "0 \<le> q1" unfolding q1_def using n g by (simp add: pos_imp_zdiv_nonneg_iff)
  have "q1 \<le> num_samples" unfolding q1_def using n by (intro int_div_le_self) simp
  with n have q1_small: "q1 < 2 ^ 53" by simp
  have "\<exists>f2. int_true_divide q1 w = Inr f2 \<and> math_floor f2 = q2"
  proof (cases "q1 = 0")
    case True
    then show ?thesis using w by (simp add: int_true_divide_zero math_floor_def q2_def)
  next
    case False
    with q1_nonneg have "0 < q1" by simp
    from math_floor_true_divide[OF this q1_small w(1) wks[folded w_def]]
    show ?thesis unfolding q2_def .
  qed
  then obtain f2 where f2: "int_true_divide q1 w = Inr f2" "math_floor f2 = q2" by blast
  have q2_lo: "q2 * w \<le> q1" unfolding q2_def by (rule floor_div_bounds[OF w(1)])
  have r: "recompute_samples_stats args True num_samples = Inr (q2 * w * g, q2 * w, q2)"
    by (simp add: recompute_samples_stats_def Let_def g_def[symmetric] f1 w(2) f2)
  have "q2 * w * g \<le> q1 * g" using q2_lo g by (intro mult_right_mono) simp_all
  with q1_lo have "q2 * w * g \<le> num_samples" by simp
  with r show ?thesis by blast
qed

subsection \<open>The counts of the pipeline driver\<close>

text \<open>
  Claim C1. For positive \<open>batch_size\<close>, \<open>world_size\<close>, \<open>workers\<close> and a positive sample
  count, the counts that \<open>recompute_samples_stats\<close> returns satisfy
  \<open>per_worker_batches * workers * batch_size * world_size = total_samples\<close> and
  \<open>total_batches = per_worker_batches * workers\<close>, with ceil and with floor rounding.
  The only failure of the function on positive inputs is the OverflowError of the float
  division (a quotient of \<open>2 ^ 1024\<close> or more); it returns counts for every sample count
  below \<open>2 ^ 53\<close> (global batch size and workers below \<open>2 ^ 1075\<close>).
\<close>

theorem recompute_samples_stats_counts:
  assumes "0 < batch_size args" and "0 < world_size args" and "0 < workers args"
      and "0 < num_samples"
  shows "(case recompute_samples_stats args use_floor num_samples of
            Inl err \<Rightarrow> err = OverflowError
          | Inr (total_samples, total_batches, per_worker_batches) \<Rightarrow>
              per_worker_batches * workers args * batch_size args * world_size args
                = total_samples
              \<and> total_batches = per_worker_batches * workers args)
       \<and> (num_samples < 2 ^ 53 \<and> batch_size args * world_size args < 2 ^ 1075
            \<and> workers args < 2 ^ 1075 \<longrightarrow>
            (\<exists>counts. recompute_samples_stats args use_floor num_samples = Inr counts))"
proof (rule conjI)
  show "case recompute_samples_stats args use_floor num_samples of
            Inl err \<Rightarrow> err = OverflowError
          | Inr (total_samples, total_batches, per_worker_batches) \<Rightarrow>
              per_worker_batches * workers args * batch_size args * world_size args
                = total_samples
              \<and> total_batches = per_worker_batches * workers args"
  proof (cases "recompute_samples_stats args use_floor num_samples")
    case (Inl err)
    have "batch_size args * world_size args \<noteq> 0" using assms by simp
    from recompute_samples_stats_Inl[OF Inl this] show ?thesis by (simp add: Inl)
  next
    case (Inr r)
    obtain ns nb nwb where r: "r = (ns, nb, nwb)" by (cases r)
    have w: "max 1 (workers args) = workers args" using assms by simp
    from recompute_samples_stats_Inr[OF Inr[unfolded r]]
    show ?thesis by (simp add: Inr r w algebra_simps)
  qed
  show "num_samples < 2 ^ 53 \<and> batch_size args * world_size args < 2 ^ 1075
            \<and> workers args < 2 ^ 1075 \<longrightarrow>
            (\<exists>counts. recompute_samples_stats args use_floor num_samples = Inr counts)"
  proof (intro impI, elim conjE)
    assume small: "num_samples < 2 ^ 53" "batch_size args * world_size args < 2 ^ 1075"
      "workers args < 2 ^ 1075"
    show "\<exists>counts. recompute_samples_stats args use_floor num_samples = Inr counts"
    proof (cases use_floor)
      case True
      from recompute_floor_small[OF assms small] obtain ns nb nwb
        where "recompute_samples_stats args True num_samples = Inr (ns, nb, nwb)" by blast
      with True show ?thesis by simp
    next
      case False
      from recompute_ceil_small[OF assms small] obtain ns nb nwb
        where "recompute_samples_stats args False num_samples = Inr (ns, nb, nwb)" by blast
      with False show ?thesis by simp
    qed
  qed
qed

theorem recompute_samples_stats_counts_witness:
  "case recompute_samples_stats
          \<lparr>batch_size = 32, world_size = 8, workers = 6,
           train_num_samples = Some 1000000\<rparr> False 1000000 of
     Inl err \<Rightarrow> False
   | Inr (total_samples, total_batches, per_worker_batches) \<Rightarrow>
       per_worker_batches = 652 \<and> total_batches = 3912 \<and> total_samples = 1001472
       \<and> per_worker_batches * 6 * 32 * 8 = total_samples
       \<and> total_batches = per_worker_batches * 6"
proof -
  let ?a = "\<lparr>batch_size = 32, world_size = 8, workers = 6,
           train_num_samples = Some 1000000\<rparr>"
  have r: "recompute_samples_stats ?a False 1000000 = Inr (1001472, 3912, 652)"
    by code_simp
  have h: "0 < batch_size ?a" "0 < world_size ?a" "0 < workers ?a" "0 < (1000000 :: int)"
    by simp_all
  from recompute_samples_stats_counts[OF h, of False, THEN conjunct1]
  show ?thesis unfolding r by simp
qed

text \<open>
  Claim C10, as the code has it. With ceil rounding the recomputed sample count is at least
  the supplied one, and with floor rounding at most the supplied one, as long as the float
  division is exact enough: for a supplied count below \<open>2 ^ 53\<close> (and a global batch
  size and a worker count below \<open>2 ^ 1075\<close>, so that no quotient underflows to zero).
  Beyond \<open>2 ^ 53\<close> the quotient is rounded to a double before \<open>math.ceil\<close> sees it,
  and the claim fails: see the counterexample below it.
\<close>

theorem recompute_samples_stats_rounding:
  assumes "0 < batch_size args" and "0 < world_size args" and "0 < workers args"
      and "0 < num_samples" and "num_samples < 2 ^ 53"
      and "batch_size args * world_size args < 2 ^ 1075" and "workers args < 2 ^ 1075"
  shows "(\<exists>ns nb nwb. recompute_samples_stats args False num_samples = Inr (ns, nb, nwb)
            \<and> num_samples \<le> ns)
       \<and> (\<exists>ns nb nwb. recompute_samples_stats args True num_samples = Inr (ns, nb, nwb)
            \<and> ns \<le> num_samples)"
  using recompute_ceil_small[OF assms] recompute_floor_small[OF assms] by blast


theorem recompute_samples_stats_rounding_witness:
  "recompute_samples_stats
     \<lparr>batch_size = 32, world_size = 8, workers = 6,
      train_num_samples = Some 1000000\<rparr> False 1000000
     = Inr (1001472, 3912, 652) \<and> (1000000 :: int) \<le> 1001472
   \<and> recompute_samples_stats
     \<lparr>batch_size = 32, world_size = 8, workers = 6,
      train_num_samples = Some 1000000\<rparr> True 1000000
     = Inr (999936, 3906, 651) \<and> (999936 :: int) \<le> 1000000"
proof -
  let ?a = "\<lparr>batch_size = 32, world_size = 8, workers = 6,
           train_num_samples = Some 1000000\<rparr>"
  have c: "recompute_samples_stats ?a False 1000000 = Inr (1001472, 3912, 652)"
    by code_simp
  have f: "recompute_samples_stats ?a True 1000000 = Inr (999936, 3906, 651)"
    by code_simp
  have "(\<exists>ns nb nwb. recompute_samples_stats ?a False 1000000 = Inr (ns, nb, nwb)
            \<and> 1000000 \<le> ns)
       \<and> (\<exists>ns nb nwb. recompute_samples_stats ?a True 1000000 = Inr (ns, nb, nwb)
            \<and> ns \<le> 1000000)"
    by (rule recompute_samples_stats_rounding) simp_all
  then show ?thesis unfolding c f by simp
qed

text \<open>
  With one worker, batch size one and \<open>2 ^ 53 + 1\<close> samples, \<open>num_samples / 1\<close> is the
  double \<open>2 ^ 53\<close>, so ceil rounding returns fewer samples than were supplied.
\<close>

theorem recompute_samples_stats_rounding_counterexample:
  "recompute_samples_stats
     \<lparr>batch_size = 1, world_size = 1, workers = 1,
      train_num_samples = Some (2 ^ 53 + 1)\<rparr> False (2 ^ 53 + 1)
   = Inr (2 ^ 53, 2 ^ 53, 2 ^ 53) \<and> (2 :: int) ^ 53 < 2 ^ 53 + 1"
  by code_simp

subsection \<open>The sample grouper\<close>

lemma base_plus_ext_examples:
  "base_plus_ext ''a.jpg'' = Some (''a'', ''jpg'')"
  "base_plus_ext ''a.txt'' = Some (''a'', ''txt'')"
  "base_plus_ext ''b.jpg'' = Some (''b'', ''jpg'')"
  by (simp_all add: base_plus_ext_def basename_def Let_def)

lemma lower_examples: "lower ''jpg'' = ''jpg''" "lower ''txt'' = ''txt''"
  by (simp_all add: lower_def lower_char_def Let_def)

text \<open>
  Claim C4, as the code has it. Fed the members \<open>a.jpg\<close>, \<open>a.txt\<close>, \<open>b.jpg\<close>, the grouper
  yields two samples: the group of prefix \<open>a\<close> with its \<open>jpg\<close> and \<open>txt\<close> fields, and, when
  the stream ends, the group of prefix \<open>b\<close> with its \<open>jpg\<close> field alone, since a sample
  is valid as soon as it is not empty. It is the next stage of the image-caption pipeline,
  \<open>select(filter_no_caption_or_no_image)\<close>, that drops the group of \<open>b\<close> and passes
  exactly one sample on.
\<close>

theorem group_by_keys_nothrow_example:
  "group_by_keys_nothrow base_plus_ext True None
     [\<lparr>fname = ''a.jpg'', data = img, url = u1\<rparr>,
      \<lparr>fname = ''a.txt'', data = txt, url = u2\<rparr>,
      \<lparr>fname = ''b.jpg'', data = img2, url = u3\<rparr>]
   = [[(''__key__'', ''a''), (''__url__'', u1), (''jpg'', img), (''txt'', txt)],
      [(''__key__'', ''b''), (''__url__'', u3), (''jpg'', img2)]]
   \<and> filter filter_no_caption_or_no_image
       (group_by_keys_nothrow base_plus_ext True None
          [\<lparr>fname = ''a.jpg'', data = img, url = u1\<rparr>,
           \<lparr>fname = ''a.txt'', data = txt, url = u2\<rparr>,
           \<lparr>fname = ''b.jpg'', data = img2, url = u3\<rparr>])
     = [[(''__key__'', ''a''), (''__url__'', u1), (''jpg'', img), (''txt'', txt)]]"
  by (simp add: group_by_keys_nothrow_def base_plus_ext_examples lower_examples
      valid_sample_def dict_keys_def filter_no_caption_or_no_image_def Let_def)

text \<open>The grouper itself yields two samples on this stream, the second one for \<open>b\<close>.\<close>

theorem group_by_keys_nothrow_example_counterexample:
  "length (group_by_keys_nothrow base_plus_ext True None
     [\<lparr>fname = ''a.jpg'', data = ''IMG'', url = ''shard-0.tar''\<rparr>,
      \<lparr>fname = ''a.txt'', data = ''hi'', url = ''shard-0.tar''\<rparr>,
      \<lparr>fname = ''b.jpg'', data = ''IMG2'', url = ''shard-0.tar''\<rparr>]) = 2
   \<and> group_by_keys_nothrow base_plus_ext True None
     [\<lparr>fname = ''a.jpg'', data = ''IMG'', url = ''shard-0.tar''\<rparr>,
      \<lparr>fname = ''a.txt'', data = ''hi'', url = ''shard-0.tar''\<rparr>,
      \<lparr>fname = ''b.jpg'', data = ''IMG2'', url = ''shard-0.tar''\<rparr>] ! 1
     = [(''__key__'', ''b''), (''__url__'', ''shard-0.tar''), (''jpg'', ''IMG2'')]"
  by code_simp

subsection \<open>The sample count of the epoch\<close>

text \<open>
  Claim C5, as the code has it. \<open>get_shard_stats\<close> takes the sample count from
  \<open>args.train_num_samples\<close> alone: it fails with the RuntimeError exactly when that hint is
  missing or zero, and otherwise returns the hint, whatever \<open>sizes.json\<close> and \<open>__len__\<close>
  hold, because the count derived from them is overwritten with \<open>None\<close>.
\<close>

theorem get_shard_stats_hint_only:
  "get_shard_stats args files input_shards =
     (case train_num_samples args of
        None \<Rightarrow> Inl (RuntimeError num_samples_message)
      | Some n \<Rightarrow>
          if n = 0 then Inl (RuntimeError num_samples_message)
          else Inr (n, int (length input_shards)))"
  by (simp add: get_shard_stats_def get_dataset_size_def truthy_def Let_def split: option.splits)

text \<open>
  With both files present (100 elements) and no hint, \<open>get_dataset_size\<close> finds the count
  and \<open>get_shard_stats\<close> still raises.
\<close>

theorem get_shard_stats_hint_only_counterexample:
  "get_dataset_size \<lparr>sizes_json = Some [(''shard-0.tar'', 100)], len_file = Some 100\<rparr>
       [''data/shard-0.tar''] = (Some 100, 1)
   \<and> get_shard_stats
       \<lparr>batch_size = 4, world_size = 1, workers = 1, train_num_samples = None\<rparr>
       \<lparr>sizes_json = Some [(''shard-0.tar'', 100)], len_file = Some 100\<rparr>
       [''data/shard-0.tar''] = Inl (RuntimeError num_samples_message)"
  by code_simp

subsection \<open>The batch assembler\<close>

lemma wds_map_loop_log_and_continue:
  "wds_map_loop f log_and_continue upstream xs =
     (List.map_filter (\<lambda>x. case f x of Inl exn \<Rightarrow> None | Inr y \<Rightarrow> Some y) xs, upstream)"
  by (induction xs) (auto simp: log_and_continue_def map_filter_simps split: sum.splits)

lemma wds_map_log_and_continue:
  "wds_map f log_and_continue src =
     (List.map_filter (\<lambda>x. case f x of Inl exn \<Rightarrow> None | Inr y \<Rightarrow> Some y) (fst src), snd src)"
  by (simp add: wds_map_def wds_map_loop_log_and_continue)

lemma batched_loop_full:
  assumes "0 < batchsize" and "int (length batch) \<le> batchsize"
  shows "\<forall>b \<in> set (fst (batched_loop batchsize False upstream batch xs)). int (length b) = batchsize"
  using assms(2)
proof (induction xs arbitrary: batch)
  case Nil
  then show ?case by (auto split: option.splits)
next
  case (Cons x xs)
  show ?case
  proof (cases "batchsize \<le> int (length batch)")
    case True
    with Cons.prems have len: "int (length batch) = batchsize" by simp
    have "int (length [x]) \<le> batchsize" using assms(1) by simp
    from Cons.IH[OF this] len True show ?thesis by (auto split: prod.splits)
  next
    case False
    then have "int (length (batch @ [x])) \<le> batchsize" by simp
    from Cons.IH[OF this] False show ?thesis by simp
  qed
qed

lemma batched_loop_chunks:
  assumes "0 < batchsize" and "int (length batch) \<le> batchsize"
  shows "\<exists>rest. batch @ xs = concat (fst (batched_loop batchsize False None batch xs)) @ rest
           \<and> int (length rest) < batchsize"
  using assms(2)
proof (induction xs arbitrary: batch)
  case Nil
  then show ?case using assms(1) by auto
next
  case (Cons x xs)
  show ?case
  proof (cases "batchsize \<le> int (length batch)")
    case True
    have "int (length [x]) \<le> batchsize" using assms(1) by simp
    from Cons.IH[OF this] obtain rest where
      eq: "[x] @ xs = concat (fst (batched_loop batchsize False None [x] xs)) @ rest"
      and len: "int (length rest) < batchsize" by blast
    have "batch @ x # xs
          = concat (fst (batched_loop batchsize False None batch (x # xs))) @ rest"
      using True eq[symmetric] by (simp add: split_beta)
    with len show ?thesis by blast
  next
    case False
    then have "int (length (batch @ [x])) \<le> batchsize" by simp
    from Cons.IH[OF this] False show ?thesis by simp
  qed
qed

lemma batched_loop_no_error:
  "snd (batched_loop batchsize partial None batch xs) = None"
  by (induction xs arbitrary: batch) (simp_all add: split_beta)

lemma batched_full:
  assumes "0 < batchsize"
  shows "\<forall>b \<in> set (fst (batched batchsize False src)). int (length b) = batchsize"
  unfolding batched_def using batched_loop_full[OF assms, of "[]"] assms by simp

lemma map_filter_length: "length (List.map_filter f xs) \<le> length xs"
  by (simp add: map_filter_def)

lemma preprocess_image_length: "length (preprocess_image sample proc) = length sample"
  by (simp add: preprocess_image_def)

lemma preprocess_text_length:
  "length (fst (preprocess_text sample tok)) = length sample"
  "length (snd (preprocess_text sample tok)) = length sample"
  by (simp_all add: preprocess_text_def tokenize_longest_def Let_def)

text \<open>
  Claim C9. With a positive batch size, every batch that the stages of the interleaved
  pipeline (\<open>add_interleaved_data_processing_step\<close>) emit holds exactly \<open>batch_size\<close>
  samples, and every batch of the image-caption pipeline (lines 500 to 510 of
  \<open>get_wds_dataset\<close>) holds \<open>batch_size\<close> images, rows of token ids and rows of the
  attention mask. When the stream of accepted samples ends, the batches are its
  consecutive chunks of \<open>batch_size\<close> samples, and the rest, fewer than \<open>batch_size\<close>
  samples, is not emitted.
\<close>

theorem batches_are_full:
  assumes "0 < batch_size args"
  shows "(\<forall>batch \<in> set (fst (add_interleaved_data_processing_step args preprocess_json_fn
                                 to_tuple_json src)).
            int (length batch) = batch_size args)
       \<and> (\<forall>(images, input_ids, attention_mask) \<in>
              set (fst (wds_dataset_processing_step args decode_pilrgb to_tuple_image_txt
                          (\<lambda>s. Inr (preprocess_image s image_processor))
                          (\<lambda>s. Inr (preprocess_text s tok)) paired_src)).
            int (length images) = batch_size args
            \<and> int (length input_ids) = batch_size args
            \<and> int (length attention_mask) = batch_size args)
       \<and> (\<exists>rest. accepted = concat (fst (batched (batch_size args) False (accepted, None))) @ rest
                  \<and> int (length rest) < batch_size args
                  \<and> snd (batched (batch_size args) False (accepted, None)) = None)"
proof (intro conjI)
  show "\<forall>batch \<in> set (fst (add_interleaved_data_processing_step args preprocess_json_fn
                                 to_tuple_json src)).
            int (length batch) = batch_size args"
    unfolding add_interleaved_data_processing_step_def by (rule batched_full[OF assms])
  show "\<forall>(images, input_ids, attention_mask) \<in>
              set (fst (wds_dataset_processing_step args decode_pilrgb to_tuple_image_txt
                          (\<lambda>s. Inr (preprocess_image s image_processor))
                          (\<lambda>s. Inr (preprocess_text s tok)) paired_src)).
            int (length images) = batch_size args
            \<and> int (length input_ids) = batch_size args
            \<and> int (length attention_mask) = batch_size args"
  proof -
    define bs where "bs = fst (batched (batch_size args) False
          (wds_map to_tuple_image_txt log_and_continue
             (wds_map decode_pilrgb log_and_continue
                (wds_select filter_no_caption_or_no_image paired_src))))"
    have full: "\<forall>b \<in> set bs. int (length b) = batch_size args"
      unfolding bs_def by (rule batched_full[OF assms])
    have out: "fst (wds_dataset_processing_step args decode_pilrgb to_tuple_image_txt
                          (\<lambda>s. Inr (preprocess_image s image_processor))
                          (\<lambda>s. Inr (preprocess_text s tok)) paired_src)
               = map (\<lambda>b. (preprocess_image (map fst b) image_processor,
                             preprocess_text (map snd b) tok)) bs"
      unfolding wds_dataset_processing_step_def wds_map_tuple_def bs_def
      by (simp add: wds_map_log_and_continue map_filter_def comp_def)
    show ?thesis
      unfolding out using full
      by (auto simp: preprocess_image_length split: prod.splits)
         (metis fst_conv snd_conv length_map preprocess_text_length)+
  qed
  show "\<exists>rest. accepted = concat (fst (batched (batch_size args) False (accepted, None))) @ rest
                  \<and> int (length rest) < batch_size args
                  \<and> snd (batched (batch_size args) False (accepted, None)) = None"
    unfolding batched_def
    using batched_loop_chunks[OF assms, of "[]" accepted] assms
    by (simp add: batched_loop_no_error)
qed

theorem batches_are_full_witness:
  "0 < batch_size \<lparr>batch_size = 2, world_size = 1, workers = 1, train_num_samples = Some 5\<rparr>
   \<and> fst (add_interleaved_data_processing_step
            \<lparr>batch_size = 2, world_size = 1, workers = 1, train_num_samples = Some 5\<rparr>
            (\<lambda>t. if t = ''{}'' then Inl (ValueError ''No images in sample'') else Inr t)
            (\<lambda>s. case map_of s ''json'' of None \<Rightarrow> Inl (ValueError ''json'') | Some v \<Rightarrow> Inr v)
            ([[(''__key__'', ''a''), (''json'', ''d1'')], [(''__key__'', ''b''), (''json'', ''{}'')],
              [(''__key__'', ''c''), (''json'', ''d2'')], [(''__key__'', ''d''), (''json'', ''d3'')],
              [(''__key__'', ''e''), (''json'', ''d4'')], [(''__key__'', ''f''), (''json'', ''d5'')]],
             None))
       = [[''d1'', ''d2''], [''d3'', ''d4'']]
   \<and> int (length [''d1'', ''d2''])
       = batch_size \<lparr>batch_size = 2, world_size = 1, workers = 1, train_num_samples = Some 5\<rparr>
   \<and> int (length [''d3'', ''d4''])
       = batch_size \<lparr>batch_size = 2, world_size = 1, workers = 1, train_num_samples = Some 5\<rparr>"
proof -
  let ?args = "\<lparr>batch_size = 2, world_size = 1, workers = 1, train_num_samples = Some 5\<rparr>"
  let ?out = "fst (add_interleaved_data_processing_step ?args
            (\<lambda>t. if t = ''{}'' then Inl (ValueError ''No images in sample'') else Inr t)
            (\<lambda>s. case map_of s ''json'' of None \<Rightarrow> Inl (ValueError ''json'') | Some v \<Rightarrow> Inr v)
            ([[(''__key__'', ''a''), (''json'', ''d1'')], [(''__key__'', ''b''), (''json'', ''{}'')],
              [(''__key__'', ''c''), (''json'', ''d2'')], [(''__key__'', ''d''), (''json'', ''d3'')],
              [(''__key__'', ''e''), (''json'', ''d4'')], [(''__key__'', ''f''), (''json'', ''d5'')]],
             None))"
  have h: "0 < batch_size ?args" by simp
  have e: "?out = [[''d1'', ''d2''], [''d3'', ''d4'']]" by code_simp
  from batches_are_full[OF h, THEN conjunct1]
  have "\<forall>batch \<in> set ?out. int (length batch) = batch_size ?args" .
  then have "int (length [''d1'', ''d2'']) = batch_size ?args"
    and "int (length [''d3'', ''d4'']) = batch_size ?args"
    unfolding e by simp_all
  with h e show ?thesis by blast
qed

subsection \<open>The resampling shard source\<close>

lemma example_random_ok: "randbelow_ok example_random"
  by (auto simp: randbelow_ok_def example_random_def nat_less_iff)

lemma get_value_init_small: "get_value (SharedEpoch_init 2) = 2" "get_value (SharedEpoch_init 4) = 4"
  by (simp_all add: get_value_def SharedEpoch_init_def)

lemma resample_loop_ok:
  assumes "us \<noteq> []" and "randbelow_ok rnd"
  shows "\<exists>out r'. resample_loop rnd us r n = Inr (out, r') \<and> length out = n \<and> set out \<subseteq> set us"
proof (induction n arbitrary: r)
  case 0
  then show ?case by simp
next
  case (Suc n)
  obtain k r1 where k: "randbelow rnd r (length us) = (k, r1)" by (cases "randbelow rnd r (length us)")
  have "k < length us"
    using assms k unfolding randbelow_ok_def by (metis fst_conv length_greater_0_conv)
  then have mem: "us ! k \<in> set us" by simp
  from Suc.IH[of r1] obtain out r' where
    "resample_loop rnd us r1 n = Inr (out, r')" "length out = n" "set out \<subseteq> set us" by blast
  with k mem assms(1) show ?case by (simp add: choice_def)
qed

text \<open>
  Claim C3. In deterministic mode the shard source draws \<open>nshards\<close> urls from \<open>urls\<close>, each
  draw from the whole list, and the sequence depends on the worker seed plus the epoch of
  the shared cell only: two iterations with the same sum yield the same sequence, whatever
  the state of the generator of either object was before.
\<close>

theorem resampled_shards_deterministic:
  assumes "deterministic a" and "deterministic b"
      and "urls a = urls b" and "nshards a = nshards b"
      and "rs_epoch a = Shared cell_a" and "rs_epoch b = Shared cell_b"
      and "worker_seed a env_a + get_value cell_a = worker_seed b env_b + get_value cell_b"
      and "urls a \<noteq> []" and "randbelow_ok rnd"
  shows "\<exists>out a' b'. iter rnd env_a a = Inr (out, a') \<and> iter rnd env_b b = Inr (out, b')
           \<and> length out = nat (nshards a) \<and> set out \<subseteq> set (urls a)"
proof -
  define r where "r = seed_rng rnd (worker_seed a env_a + get_value cell_a)"
  from resample_loop_ok[OF assms(8,9), of r "nat (nshards a)"] obtain out r' where
    l: "resample_loop rnd (urls a) r (nat (nshards a)) = Inr (out, r')"
    and o: "length out = nat (nshards a)" "set out \<subseteq> set (urls a)" by blast
  have "iter rnd env_a a = Inr (out, a\<lparr>rng := r'\<rparr>)"
    using assms(1,5) l by (simp add: iter_def r_def)
  moreover have "iter rnd env_b b = Inr (out, b\<lparr>rng := r'\<rparr>)"
    using assms(2,6) l assms(3,4,7) by (simp add: iter_def r_def)
  ultimately show ?thesis using o by blast
qed

theorem resampled_shards_deterministic_witness:
  "map_sum id fst
     (iter example_random \<lparr>worker_info_seed = None, wds_worker_seed = 3\<rparr>
        \<lparr>urls = [''s0.tar'', ''s1.tar'', ''s2.tar''], nshards = 7, rng = 0,
         worker_seed = pytorch_worker_seed, deterministic = True,
         rs_epoch = Shared (SharedEpoch_init 2)\<rparr>)
   = Inr [''s2.tar'', ''s2.tar'', ''s2.tar'', ''s1.tar'', ''s0.tar'', ''s0.tar'', ''s0.tar'']
   \<and> map_sum id fst
     (iter example_random \<lparr>worker_info_seed = Some 1, wds_worker_seed = 8\<rparr>
        \<lparr>urls = [''s0.tar'', ''s1.tar'', ''s2.tar''], nshards = 7, rng = 4242,
         worker_seed = pytorch_worker_seed, deterministic = True,
         rs_epoch = Shared (SharedEpoch_init 4)\<rparr>)
   = Inr [''s2.tar'', ''s2.tar'', ''s2.tar'', ''s1.tar'', ''s0.tar'', ''s0.tar'', ''s0.tar'']"
proof -
  let ?ea = "\<lparr>worker_info_seed = None, wds_worker_seed = 3\<rparr>"
  let ?eb = "\<lparr>worker_info_seed = Some 1, wds_worker_seed = 8\<rparr>"
  let ?a = "\<lparr>urls = [''s0.tar'', ''s1.tar'', ''s2.tar''], nshards = 7, rng = 0 :: int,
         worker_seed = pytorch_worker_seed, deterministic = True,
         rs_epoch = Shared (SharedEpoch_init 2)\<rparr>"
  let ?b = "\<lparr>urls = [''s0.tar'', ''s1.tar'', ''s2.tar''], nshards = 7, rng = 4242 :: int,
         worker_seed = pytorch_worker_seed, deterministic = True,
         rs_epoch = Shared (SharedEpoch_init 4)\<rparr>"
  have h: "deterministic ?a" "deterministic ?b" "urls ?a = urls ?b" "nshards ?a = nshards ?b"
    "rs_epoch ?a = Shared (SharedEpoch_init 2)" "rs_epoch ?b = Shared (SharedEpoch_init 4)"
    "worker_seed ?a ?ea + get_value (SharedEpoch_init 2)
       = worker_seed ?b ?eb + get_value (SharedEpoch_init 4)"
    "urls ?a \<noteq> []"
    by (simp_all add: get_value_init_small pytorch_worker_seed_def)
  from resampled_shards_deterministic[OF h example_random_ok]
  obtain out a' b' where
    o: "iter example_random ?ea ?a = Inr (out, a')" "iter example_random ?eb ?b = Inr (out, b')"
    by blast
  have e: "map_sum id fst (iter example_random ?ea ?a)
     = Inr [''s2.tar'', ''s2.tar'', ''s2.tar'', ''s1.tar'', ''s0.tar'', ''s0.tar'', ''s0.tar'']"
    by code_simp
  with o(1) have "out = [''s2.tar'', ''s2.tar'', ''s2.tar'', ''s1.tar'', ''s0.tar'', ''s0.tar'', ''s0.tar'']"
    by simp
  with o show ?thesis by simp
qed

subsection \<open>The deterministic shuffle\<close>

lemma pick_length:
  "pick rnd buf r = (y, buf', r') \<Longrightarrow> length buf' = length buf - 1"
  by (auto simp: pick_def split: prod.splits)

lemma pick_mset:
  assumes ok: "randbelow_ok rnd" and ne: "buf \<noteq> []" and p: "pick rnd buf r = (y, buf', r')"
  shows "add_mset y (mset buf') = mset buf"
proof -
  obtain k r1 where k: "randbelow rnd r (length buf) = (k, r1)"
    by (cases "randbelow rnd r (length buf)")
  have kl: "k < length buf"
    using ok ne k unfolding randbelow_ok_def by (metis fst_conv length_greater_0_conv)
  from p k have y: "y = buf ! k" and b: "buf' = butlast (buf[k := last buf])"
    by (simp_all add: pick_def)
  define upd where "upd = buf[k := last buf]"
  have une: "upd \<noteq> []" using ne by (simp add: upd_def)
  have last_upd: "last upd = last buf"
    using kl ne unfolding upd_def
    by (cases "k = length buf - 1") (simp_all add: last_conv_nth last_list_update)
  have "mset upd = add_mset (last buf) (mset buf - {#buf ! k#})"
    unfolding upd_def using kl by (rule mset_update)
  moreover have "mset upd = add_mset (last upd) (mset (butlast upd))"
    using une by (metis append_butlast_last_id mset.simps(2) mset_append union_mset_add_mset_right add.right_neutral mset.simps(1))
  ultimately have "mset (butlast upd) = mset buf - {#buf ! k#}"
    using last_upd by simp
  moreover have "buf ! k \<in># mset buf" using kl by simp
  ultimately show ?thesis unfolding y b upd_def[symmetric] by simp
qed

lemma drain_bound:
  "\<forall>(n, x) \<in> set (fst (drain rnd buf r)). n \<le> length buf"
proof (induction "length buf" arbitrary: buf r)
  case 0
  then show ?case by (subst drain.simps) simp
next
  case (Suc m)
  obtain y buf' r' where p: "pick rnd buf r = (y, buf', r')" by (cases "pick rnd buf r")
  have l: "m = length buf'" using pick_length[OF p] Suc.hyps(2) by simp
  have ne: "0 < length buf" using Suc.hyps(2) by auto
  have eq: "fst (drain rnd buf r) = (length buf, y) # fst (drain rnd buf' r')"
    using ne by (subst drain.simps) (simp add: p split_beta)
  from Suc.hyps(1)[OF l, of r'] have "\<forall>(n, x) \<in> set (fst (drain rnd buf' r')). n \<le> length buf'" .
  then show ?case
    unfolding eq using l Suc.hyps(2) by fastforce
qed

lemma drain_mset:
  assumes ok: "randbelow_ok rnd"
  shows "mset (map snd (fst (drain rnd buf r))) = mset buf"
proof (induction "length buf" arbitrary: buf r)
  case 0
  then show ?case by (subst drain.simps) simp
next
  case (Suc m)
  obtain y buf' r' where p: "pick rnd buf r = (y, buf', r')" by (cases "pick rnd buf r")
  have l: "m = length buf'" using pick_length[OF p] Suc.hyps(2) by simp
  have ne: "buf \<noteq> []" using Suc.hyps(2) by auto
  have eq: "fst (drain rnd buf r) = (length buf, y) # fst (drain rnd buf' r')"
    using ne by (subst drain.simps) (simp add: p split_beta)
  from Suc.hyps(1)[OF l, of r'] have "mset (map snd (fst (drain rnd buf' r'))) = mset buf'" .
  then show ?case
    unfolding eq using pick_mset[OF ok ne p] by simp
qed

lemma refill_facts:
  assumes "refill bsz b rest = (b2, rest2)"
  shows "length rest2 \<le> length rest" and "b2 @ rest2 = b @ rest"
    and "b \<noteq> [] \<Longrightarrow> b2 \<noteq> []"
    and "int (length b) \<le> max 1 bsz \<Longrightarrow> int (length b2) \<le> max 1 bsz"
  using assms by (auto simp: refill_def split: if_splits list.splits)

lemma shuffle_loop_bounds:
  assumes cap: "ini \<le> bsz"
  shows "int (length buf) < max 1 bsz \<Longrightarrow>
         (\<forall>(n, x) \<in> set (fst (shuffle_loop rnd bsz ini buf r src)).
             ini \<le> int n \<and> int n \<le> max 1 bsz)
         \<and> int (length (fst (snd (shuffle_loop rnd bsz ini buf r src)))) < max 1 bsz"
proof (induction "length src" arbitrary: src buf r rule: less_induct)
  case less
  show ?case
  proof (cases src)
    case Nil
    with less.prems show ?thesis by simp
  next
    case (Cons sample rest)
    obtain buf2 rest2 where rf: "refill bsz (buf @ [sample]) rest = (buf2, rest2)"
      by (cases "refill bsz (buf @ [sample]) rest")
    have shorter: "length rest2 < length src" using refill_facts(1)[OF rf] Cons by simp
    have ne: "buf2 \<noteq> []" using refill_facts(3)[OF rf] by simp
    have len2: "int (length buf2) \<le> max 1 bsz"
      using refill_facts(4)[OF rf] less.prems by simp
    show ?thesis
    proof (cases "ini \<le> int (length buf2)")
      case True
      obtain y buf3 r' where p: "pick rnd buf2 r = (y, buf3, r')" by (cases "pick rnd buf2 r")
      have l3: "int (length buf3) < max 1 bsz" using pick_length[OF p] len2 ne by (cases buf2) auto
      from less.hyps[OF shorter l3, of r'] True p len2 rf Cons
      show ?thesis by (simp add: split_beta)
    next
      case False
      with cap have l2: "int (length buf2) < max 1 bsz" by simp
      from less.hyps[OF shorter l2, of r] False rf Cons
      show ?thesis by simp
    qed
  qed
qed

lemma shuffle_loop_mset:
  assumes ok: "randbelow_ok rnd"
  shows "mset (map snd (fst (shuffle_loop rnd bsz ini buf r src)))
           + mset (fst (snd (shuffle_loop rnd bsz ini buf r src)))
         = mset buf + mset src"
proof (induction "length src" arbitrary: src buf r rule: less_induct)
  case less
  show ?case
  proof (cases src)
    case Nil
    then show ?thesis by simp
  next
    case (Cons sample rest)
    obtain buf2 rest2 where rf: "refill bsz (buf @ [sample]) rest = (buf2, rest2)"
      by (cases "refill bsz (buf @ [sample]) rest")
    have shorter: "length rest2 < length src" using refill_facts(1)[OF rf] Cons by simp
    have ne: "buf2 \<noteq> []" using refill_facts(3)[OF rf] by simp
    have "mset (buf2 @ rest2) = mset ((buf @ [sample]) @ rest)"
      using refill_facts(2)[OF rf] by simp
    then have all: "mset buf2 + mset rest2 = mset buf + mset src" using Cons by simp
    show ?thesis
    proof (cases "ini \<le> int (length buf2)")
      case True
      obtain y buf3 r' where p: "pick rnd buf2 r = (y, buf3, r')" by (cases "pick rnd buf2 r")
      have m: "add_mset y (mset buf3) = mset buf2" by (rule pick_mset[OF ok ne p])
      from less.hyps[OF shorter, of buf3 r'] True p rf Cons m all
      show ?thesis by (simp add: split_beta) (metis add_mset_add_single union_commute union_assoc m all)
    next
      case False
      from less.hyps[OF shorter, of buf2 r] False rf Cons all
      show ?thesis by simp
    qed
  qed
qed

text \<open>
  Claim C2, as the code has it. For seeds that are not negative, two runs of \<open>detshuffle2\<close>
  over the same input with the same seed plus epoch of the shared cell (in particular: the
  same seed and the same epoch) produce the same output, in whatever worker they run. The
  buffer never holds more than \<open>max 1 bufsize\<close> elements; while the data lasts, an element
  is only picked from a buffer of at least \<open>min initial bufsize\<close> elements, so that nothing
  is emitted before that many are buffered; and after the data has ended the buffer is
  emptied, so that the output is a permutation of the input. When
  \<open>1 \<le> bufsize\<close> and \<open>initial \<le> bufsize\<close> these are the bounds \<open>bufsize\<close> and \<open>initial\<close>
  themselves.
\<close>

theorem detshuffle2_deterministic:
  assumes "0 \<le> seed a" and "0 \<le> seed b"
      and "bufsize a = bufsize b" and "initial a = initial b"
      and "epoch a = Shared cell_a" and "epoch b = Shared cell_b"
      and "seed a + get_value cell_a = seed b + get_value cell_b"
      and "randbelow_ok rnd"
  shows "fst (run rnd env_a a src) = fst (run rnd env_b b src)
       \<and> (case shuffle_yields rnd src (bufsize a) (initial a)
                  (seed_rng rnd (seed a + get_value cell_a)) of
            (yields, drained) \<Rightarrow>
              fst (run rnd env_a a src) = map snd yields @ map snd drained
              \<and> (\<forall>(n, x) \<in> set yields.
                    min (initial a) (bufsize a) \<le> int n \<and> int n \<le> max 1 (bufsize a))
              \<and> (\<forall>(n, x) \<in> set drained. int n \<le> max 1 (bufsize a))
              \<and> mset (map snd yields @ map snd drained) = mset src)"
proof -
  define r where "r = seed_rng rnd (seed a + get_value cell_a)"
  define ini where "ini = min (initial a) (bufsize a)"
  define loop where "loop = shuffle_loop rnd (bufsize a) ini [] r src"
  define yields where "yields = fst loop"
  define buf where "buf = fst (snd loop)"
  define drained where "drained = fst (drain rnd buf (snd (snd loop)))"
  have sy: "shuffle_yields rnd src (bufsize a) (initial a) r = (yields, drained)"
    by (simp add: shuffle_yields_def Let_def split_beta yields_def drained_def buf_def loop_def ini_def)
  have run_a: "fst (run rnd env_a a src) = wds_shuffle rnd src (bufsize a) (initial a) r"
    using assms(1,5) by (simp add: run_def Let_def r_def)
  have run_b: "fst (run rnd env_b b src) = wds_shuffle rnd src (bufsize a) (initial a) r"
    using assms(2,3,4,6,7) by (simp add: run_def Let_def r_def)
  have out: "wds_shuffle rnd src (bufsize a) (initial a) r = map snd yields @ map snd drained"
    by (simp add: wds_shuffle_def sy)
  have cap: "ini \<le> bufsize a" by (simp add: ini_def)
  have start: "int (length ([] :: 'b list)) < max 1 (bufsize a)" by simp
  from shuffle_loop_bounds[OF cap start, of rnd r src]
  have b1: "\<forall>(n, x) \<in> set yields. ini \<le> int n \<and> int n \<le> max 1 (bufsize a)"
    and b2: "int (length buf) < max 1 (bufsize a)"
    by (simp_all add: yields_def buf_def loop_def)
  have b3: "\<forall>(n, x) \<in> set drained. int n \<le> max 1 (bufsize a)"
    using drain_bound[of rnd buf "snd (snd loop)"] b2 unfolding drained_def by fastforce
  have "mset (map snd yields) + mset buf = mset src"
    using shuffle_loop_mset[OF assms(8), of "bufsize a" ini "[]" r src]
    by (simp add: yields_def buf_def loop_def)
  moreover have "mset (map snd drained) = mset buf"
    unfolding drained_def by (rule drain_mset[OF assms(8)])
  ultimately have m: "mset (map snd yields @ map snd drained) = mset src" by simp
  show ?thesis
    unfolding r_def[symmetric] sy using run_a run_b out b1 b3 m by (simp add: ini_def)
qed

theorem detshuffle2_deterministic_witness:
  "fst (run example_random \<lparr>worker_info_seed = None, wds_worker_seed = 11\<rparr>
          \<lparr>bufsize = 4, initial = 2, seed = 5, epoch = Shared (SharedEpoch_init 2)\<rparr>
          [1, 2, 3, 4, 5, 6, 7, 8, 9, 10 :: int])
   = [2, 4, 6, 1, 3, 8, 5, 9, 7, 10]
   \<and> fst (run example_random \<lparr>worker_info_seed = Some 99, wds_worker_seed = 12\<rparr>
          \<lparr>bufsize = 4, initial = 2, seed = 3, epoch = Shared (SharedEpoch_init 4)\<rparr>
          [1, 2, 3, 4, 5, 6, 7, 8, 9, 10 :: int])
   = [2, 4, 6, 1, 3, 8, 5, 9, 7, 10]
   \<and> shuffle_yields example_random [1, 2, 3, 4, 5, 6, 7, 8, 9, 10 :: int] 4 2
        (seed_rng example_random 7)
     = ([(2, 2), (3, 4), (4, 6), (4, 1), (4, 3), (4, 8), (4, 5)], [(3, 9), (2, 7), (1, 10)])"
proof -
  let ?a = "\<lparr>bufsize = 4, initial = 2, seed = 5, epoch = Shared (SharedEpoch_init 2)\<rparr>"
  let ?b = "\<lparr>bufsize = 4, initial = 2, seed = 3, epoch = Shared (SharedEpoch_init 4)\<rparr>"
  let ?src = "[1, 2, 3, 4, 5, 6, 7, 8, 9, 10 :: int]"
  have y: "shuffle_yields example_random ?src 4 2 (seed_rng example_random 7)
     = ([(2, 2), (3, 4), (4, 6), (4, 1), (4, 3), (4, 8), (4, 5)], [(3, 9), (2, 7), (1, 10)])"
    by code_simp
  have h: "0 \<le> seed ?a" "0 \<le> seed ?b" "bufsize ?a = bufsize ?b" "initial ?a = initial ?b"
    "epoch ?a = Shared (SharedEpoch_init 2)" "epoch ?b = Shared (SharedEpoch_init 4)"
    "seed ?a + get_value (SharedEpoch_init 2) = seed ?b + get_value (SharedEpoch_init 4)"
    by (simp_all add: get_value_init_small)
  note t = detshuffle2_deterministic[OF h example_random_ok,
      of "\<lparr>worker_info_seed = None, wds_worker_seed = 11\<rparr>" ?src
         "\<lparr>worker_info_seed = Some 99, wds_worker_seed = 12\<rparr>"]
  from t have eq: "fst (run example_random \<lparr>worker_info_seed = None, wds_worker_seed = 11\<rparr> ?a ?src)
      = fst (run example_random \<lparr>worker_info_seed = Some 99, wds_worker_seed = 12\<rparr> ?b ?src)"
    and out: "fst (run example_random \<lparr>worker_info_seed = None, wds_worker_seed = 11\<rparr> ?a ?src)
      = [2, 4, 6, 1, 3, 8, 5, 9, 7, 10]"
    by (auto simp add: get_value_init_small y)
  have out_b: "fst (run example_random \<lparr>worker_info_seed = Some 99, wds_worker_seed = 12\<rparr> ?b ?src)
      = [2, 4, 6, 1, 3, 8, 5, 9, 7, 10]"
    by (rule trans[OF eq[symmetric] out])
  show ?thesis by (rule conjI[OF out conjI[OF out_b y]])
qed

text \<open>
  With \<open>bufsize = 2\<close> and \<open>initial = 5\<close>, which the constructor of \<open>detshuffle2\<close> stores as
  they are, the first element is emitted when two elements are buffered, not five:
  \<open>initial\<close> is capped at \<open>bufsize\<close>. With \<open>bufsize = 0\<close> the buffer holds one element when
  an element is picked, which is more than \<open>bufsize\<close>: every sample is appended to the
  buffer before it is picked.
\<close>

theorem detshuffle2_deterministic_counterexample:
  "fst (run example_random \<lparr>worker_info_seed = None, wds_worker_seed = 11\<rparr>
          \<lparr>bufsize = 2, initial = 5, seed = 5, epoch = Shared (SharedEpoch_init 2)\<rparr>
          [1, 2, 3, 4, 5, 6, 7, 8, 9 :: int])
   = [2, 3, 4, 1, 6, 7, 5, 8, 9]
   \<and> shuffle_yields example_random [1, 2, 3, 4, 5, 6, 7, 8, 9 :: int] 2 5
        (seed_rng example_random (5 + get_value (SharedEpoch_init 2)))
     = ([(2, 2), (2, 3), (2, 4), (2, 1), (2, 6), (2, 7), (2, 5), (2, 8)], [(1, 9)])
   \<and> \<not> 5 \<le> int (fst (hd (fst (shuffle_yields example_random
                [1, 2, 3, 4, 5, 6, 7, 8, 9 :: int] 2 5
                (seed_rng example_random (5 + get_value (SharedEpoch_init 2)))))))
   \<and> shuffle_yields example_random [1, 2, 3 :: int] 0 0
        (seed_rng example_random (5 + get_value (SharedEpoch_init 2)))
     = ([(1, 1), (1, 2), (1, 3)], [])
   \<and> \<not> int (fst (hd (fst (shuffle_yields example_random [1, 2, 3 :: int] 0 0
                (seed_rng example_random (5 + get_value (SharedEpoch_init 2))))))) \<le> 0"
  by code_simp

subsection \<open>The interleaved preprocessor\<close>

lemma ruw_loop_facts:
  "remove_unwanted_images_loop parse n xs flags = Inr (n', segs, fl) \<Longrightarrow>
     n' = n + length (wanted_images parse xs flags)
     \<and> flagged_images segs fl = take (5 - n) (wanted_images parse xs flags)
     \<and> well_flagged segs fl
     \<and> length segs = length xs \<and> length fl = length flags"
proof (induction parse n xs flags arbitrary: n' segs fl rule: remove_unwanted_images_loop.induct)
  case (1 parse_image num_images flags)
  then show ?case by (simp add: wanted_images_def flagged_images_def well_flagged_def)
next
  case (2 parse_image num_images x xs)
  then show ?case by (auto simp: wanted_images_def flagged_images_def well_flagged_def)
next
  case (3 parse_image num_images x xs flag flags)
  show ?case
  proof (cases "flag \<noteq> 0")
    case False
    with "3.prems" obtain segs' fl' where
      r: "remove_unwanted_images_loop parse_image num_images xs flags = Inr (n', segs', fl')"
      and s: "segs = Str x # segs'" "fl = flag # fl'"
      by (auto split: sum.splits)
    from "3.IH"(2)[OF False r] False s show ?thesis
      by (simp add: wanted_images_def flagged_images_def well_flagged_def)
  next
    case True
    with "3.prems" obtain im where p: "parse_image x = Inr im"
      by (auto split: sum.splits)
    define unw where "unw = is_unwanted_image im"
    define m where "m = (if \<not> unw then num_images + 1 else num_images)"
    from "3.prems" True p obtain segs' fl' where
      r: "remove_unwanted_images_loop parse_image m xs flags = Inr (n', segs', fl')"
      and s: "(unw \<or> 5 < m) \<and> segs = Str [] # segs' \<and> fl = 0 # fl'
              \<or> \<not> (unw \<or> 5 < m) \<and> segs = Img im # segs' \<and> fl = flag # fl'"
      by (auto simp: Let_def unw_def m_def split: sum.splits if_splits)
    note IH = "3.IH"(1)[OF True p unw_def refl r[unfolded m_def]]
    have w: "wanted_images parse_image (x # xs) (flag # flags)
             = (if unw then [] else [im]) @ wanted_images parse_image xs flags"
      using True p by (simp add: wanted_images_def unw_def)
    show ?thesis
      using IH s True w
      by (auto simp: m_def flagged_images_def well_flagged_def take_Cons' split: if_splits)
  qed
qed

lemma update_texts_facts:
  "well_flagged segs flags \<Longrightarrow>
     \<exists>segs'. update_texts g segs flags = Inr segs'
       \<and> well_flagged segs' flags
       \<and> flagged_images segs' flags = flagged_images segs flags
       \<and> length segs' = length segs"
proof (induction g segs flags rule: update_texts.induct)
  case (1 g flags)
  then show ?case by (simp add: well_flagged_def flagged_images_def)
next
  case (2 g x xs)
  then show ?case by (simp add: well_flagged_def flagged_images_def)
next
  case (3 g x xs flag flags)
  from "3.prems" have wf: "well_flagged xs flags"
    and hd: "case x of Img im \<Rightarrow> flag \<noteq> 0 | Str s \<Rightarrow> flag = 0"
    by (simp_all add: well_flagged_def)
  show ?case
  proof (cases "flag = 0")
    case True
    with hd obtain s where x: "x = Str s" by (cases x) auto
    from "3.IH"(1)[OF True x wf] True x show ?thesis
      by (auto simp: well_flagged_def flagged_images_def)
  next
    case False
    from "3.IH"(2)[OF False wf] False hd show ?thesis
      by (auto simp: well_flagged_def flagged_images_def)
  qed
qed

lemma concat_map_filter_irrelevant:
  assumes "\<And>p. \<not> P p \<Longrightarrow> F p = []"
  shows "concat (map F (filter P ps)) = concat (map F ps)"
  by (induction ps) (auto simp: assms)

lemma filter_out_empty_facts:
  assumes "well_flagged segs flags"
      and "filter_out_empty_sentences segs flags = (segs', flags')"
  shows "well_flagged segs' flags'"
    and "flagged_images segs' flags' = flagged_images segs flags"
    and "length segs' = length flags'"
proof -
  define kept where "kept = filter (\<lambda>(x, flag). \<not> x = Str []) (zip segs flags)"
  have s: "segs' = map fst kept" "flags' = map snd kept"
    using assms(2) by (simp_all add: filter_out_empty_sentences_def kept_def Let_def)
  have z: "zip segs' flags' = kept" unfolding s by (simp add: zip_map_fst_snd)
  show "length segs' = length flags'" unfolding s by simp
  show "well_flagged segs' flags'"
    using assms(1) unfolding well_flagged_def z kept_def by (simp add: list_all_iff)
  show "flagged_images segs' flags' = flagged_images segs flags"
    unfolding flagged_images_def z kept_def
    by (rule concat_map_filter_irrelevant) (auto split: segment.splits)
qed

lemma substitute_loop_facts:
  "well_flagged segs flags \<Longrightarrow> length segs = length flags \<Longrightarrow>
     \<exists>l. substitute_loop segs flags = Inr (flagged_images segs flags, l)
       \<and> (\<exists>parts. segment_texts l = Inr parts)"
proof (induction segs flags rule: substitute_loop.induct)
  case (1 flags)
  then show ?case by (simp add: flagged_images_def)
next
  case (2 x xs)
  then show ?case by simp
next
  case (3 x xs flag flags)
  from "3.prems" have wf: "well_flagged xs flags" and len: "length xs = length flags"
    and hd: "case x of Img im \<Rightarrow> flag \<noteq> 0 | Str s \<Rightarrow> flag = 0"
    by (simp_all add: well_flagged_def)
  from "3.IH"[OF wf len] obtain l parts where
    "substitute_loop xs flags = Inr (flagged_images xs flags, l)" "segment_texts l = Inr parts"
    by blast
  with hd show ?case
    by (cases x) (auto simp: flagged_images_def)
qed

lemma flagged_images_nonempty: "flagged_images segs flags \<noteq> [] \<Longrightarrow> segs \<noteq> []"
  by (auto simp: flagged_images_def)

lemma preprocess_sentences_facts:
  assumes "well_flagged segs flags"
  shows "\<exists>l3 f3. preprocess_sentences segs flags = Inr (length l3, l3, f3)
           \<and> well_flagged l3 f3 \<and> length l3 = length f3
           \<and> flagged_images l3 f3 = flagged_images segs flags"
proof -
  from update_texts_facts[OF assms, of preprocess_sentence] obtain l1 where
    l1: "update_texts preprocess_sentence segs flags = Inr l1" "well_flagged l1 flags"
        "flagged_images l1 flags = flagged_images segs flags" by blast
  from update_texts_facts[OF l1(2), of "\<lambda>s. if is_punctuation s then [] else s"] obtain l2 where
    l2: "update_texts (\<lambda>s. if is_punctuation s then [] else s) l1 flags = Inr l2"
        "well_flagged l2 flags" "flagged_images l2 flags = flagged_images l1 flags" by blast
  obtain l3 f3 where f: "filter_out_empty_sentences l2 flags = (l3, f3)"
    by (cases "filter_out_empty_sentences l2 flags")
  note ff = filter_out_empty_facts[OF l2(2) f]
  have "preprocess_sentences segs flags = Inr (length l3, l3, f3)"
    using l1(1) l2(1) f ff(3)
    by (simp add: preprocess_sentences_def remove_punctuation_based_sentences_def)
  with ff l1(3) l2(3) show ?thesis by auto
qed

lemma preprocess_interleaved_sample_accepts:
  assumes r: "remove_unwanted_images parse_image (sample_interleaved_list sample)
                (sample_is_image sample) = Inr (n, l1, f1)"
      and w: "wanted_images parse_image (sample_interleaved_list sample) (sample_is_image sample) \<noteq> []"
  shows "\<exists>text_tensor.
           preprocess_interleaved_sample parse_image sample tok proc
           = Inr (prepare_image_data
                    (take 5 (wanted_images parse_image (sample_interleaved_list sample)
                               (sample_is_image sample))) proc,
                  text_tensor)"
proof -
  define wanted where
    "wanted = wanted_images parse_image (sample_interleaved_list sample) (sample_is_image sample)"
  from ruw_loop_facts[OF r[unfolded remove_unwanted_images_def]]
  have n: "n = length wanted" and im1: "flagged_images l1 f1 = take 5 wanted"
    and wf1: "well_flagged l1 f1"
    by (simp_all add: wanted_def)
  have n0: "n \<noteq> 0" using n w by (simp add: wanted_def)
  from preprocess_sentences_facts[OF wf1] obtain l3 f3 where
    ps: "preprocess_sentences l1 f1 = Inr (length l3, l3, f3)"
    and wf3: "well_flagged l3 f3" and len3: "length l3 = length f3"
    and im3: "flagged_images l3 f3 = flagged_images l1 f1" by blast
  have ne: "flagged_images l3 f3 \<noteq> []" using im3 im1 w by (simp add: wanted_def)
  then have l3ne: "length l3 \<noteq> 0" using flagged_images_nonempty by auto
  from substitute_loop_facts[OF wf3 len3] obtain l4 parts where
    sl: "substitute_loop l3 f3 = Inr (flagged_images l3 f3, l4)"
    and st: "segment_texts l4 = Inr parts" by blast
  have sw: "substitute_with_image_tag l3 f3 = Inr (flagged_images l3 f3, l4, f3)"
    using sl ne by (simp add: substitute_with_image_tag_def)
  show ?thesis
    using r n0 ps l3ne sw st im3 im1
    by (simp add: preprocess_interleaved_sample_def prepare_text_data_def Let_def wanted_def)
qed

lemma preprocess_interleaved_sample_rejects:
  assumes w: "wanted_images parse_image (sample_interleaved_list sample) (sample_is_image sample) = []"
  shows "preprocess_interleaved_sample parse_image sample tok proc
           = Inl (ValueError ''No images in sample'')
         \<or> (\<exists>exn. remove_unwanted_images parse_image (sample_interleaved_list sample)
                      (sample_is_image sample) = Inl exn
                  \<and> preprocess_interleaved_sample parse_image sample tok proc = Inl exn)"
proof (cases "remove_unwanted_images parse_image (sample_interleaved_list sample)
                (sample_is_image sample)")
  case (Inl exn)
  then show ?thesis by (simp add: preprocess_interleaved_sample_def)
next
  case (Inr t)
  obtain n l1 f1 where t: "t = (n, l1, f1)" by (cases t)
  from ruw_loop_facts[OF Inr[unfolded t remove_unwanted_images_def]] w
  have "n = 0" by simp
  with Inr t show ?thesis by (simp add: preprocess_interleaved_sample_def)
qed

lemma prepare_image_data_take5:
  "prepare_image_data (take 5 ws) proc
   = map (\<lambda>im. augment proc (pixel_values proc im)) (take 5 ws)
     @ replicate (5 - length ws) (zero_image proc)"
  by (simp add: prepare_image_data_def preprocess_image_def Let_def min_def)

text \<open>
  Claim C6. A document that the interleaved preprocessor accepts has at least one image
  that decodes and is larger than 10 by 10 pixels; the first five of these images are
  kept, in their order, and the image tensor has exactly five rows: the kept images and
  then rows of zeros. A document of which no image passes the filter is rejected with the
  ValueError ``No images in sample'' (or with the error of an image that does not decode).
\<close>

theorem interleaved_images_capped:
  "(preprocess_interleaved_sample parse_image sample tok proc = Inr (images_tensor, text_tensor) \<longrightarrow>
      length images_tensor = 5
      \<and> wanted_images parse_image (sample_interleaved_list sample) (sample_is_image sample) \<noteq> []
      \<and> images_tensor
          = map (\<lambda>im. augment proc (pixel_values proc im))
              (take 5 (wanted_images parse_image (sample_interleaved_list sample)
                         (sample_is_image sample)))
            @ replicate
                (5 - length (wanted_images parse_image (sample_interleaved_list sample)
                               (sample_is_image sample)))
                (zero_image proc))
   \<and> (wanted_images parse_image (sample_interleaved_list sample) (sample_is_image sample) = [] \<longrightarrow>
        preprocess_interleaved_sample parse_image sample tok proc
          = Inl (ValueError ''No images in sample'')
        \<or> (\<exists>exn. remove_unwanted_images parse_image (sample_interleaved_list sample)
                     (sample_is_image sample) = Inl exn
                 \<and> preprocess_interleaved_sample parse_image sample tok proc = Inl exn))"
proof (intro conjI impI)
  define wanted where
    "wanted = wanted_images parse_image (sample_interleaved_list sample) (sample_is_image sample)"
  assume acc: "preprocess_interleaved_sample parse_image sample tok proc
               = Inr (images_tensor, text_tensor)"
  then obtain n l1 f1 where
    r: "remove_unwanted_images parse_image (sample_interleaved_list sample)
          (sample_is_image sample) = Inr (n, l1, f1)"
    by (auto simp: preprocess_interleaved_sample_def split: sum.splits)
  show w: "wanted_images parse_image (sample_interleaved_list sample) (sample_is_image sample) \<noteq> []"
  proof
    assume "wanted_images parse_image (sample_interleaved_list sample) (sample_is_image sample) = []"
    from preprocess_interleaved_sample_rejects[OF this, of tok proc] acc r show False by auto
  qed
  from preprocess_interleaved_sample_accepts[OF r w, of tok proc] acc
  have "images_tensor = prepare_image_data (take 5 wanted) proc" by (auto simp: wanted_def)
  then have it: "images_tensor = map (\<lambda>im. augment proc (pixel_values proc im)) (take 5 wanted)
            @ replicate (5 - length wanted) (zero_image proc)"
    by (simp only: prepare_image_data_take5)
  then show "images_tensor
          = map (\<lambda>im. augment proc (pixel_values proc im))
              (take 5 (wanted_images parse_image (sample_interleaved_list sample)
                         (sample_is_image sample)))
            @ replicate
                (5 - length (wanted_images parse_image (sample_interleaved_list sample)
                               (sample_is_image sample)))
                (zero_image proc)"
    by (simp add: wanted_def)
  from it show "length images_tensor = 5" by (simp add: min_def)
next
  assume "wanted_images parse_image (sample_interleaved_list sample) (sample_is_image sample) = []"
  then show "preprocess_interleaved_sample parse_image sample tok proc
          = Inl (ValueError ''No images in sample'')
        \<or> (\<exists>exn. remove_unwanted_images parse_image (sample_interleaved_list sample)
                     (sample_is_image sample) = Inl exn
                 \<and> preprocess_interleaved_sample parse_image sample tok proc = Inl exn)"
    by (rule preprocess_interleaved_sample_rejects)
qed

theorem interleaved_images_capped_witness:
  "(case preprocess_interleaved_sample example_parse_image
           \<lparr>sample_interleaved_list =
              [''photo1'', ''A caption.'', ''icon'', ''photo2'', ''photo3'', ''photo4'',
               ''photo5'', ''photo6'', ''photo7''],
            sample_is_image = [1, 0, 1, 1, 1, 1, 1, 1, 1]\<rparr>
           example_tokenizer example_image_processor of
      Inl exn \<Rightarrow> False
    | Inr (images_tensor, text_tensor) \<Rightarrow>
        images_tensor = [''photo1'', ''photo2'', ''photo3'', ''photo4'', ''photo5'']
        \<and> length images_tensor = 5)
   \<and> length (wanted_images example_parse_image
        [''photo1'', ''A caption.'', ''icon'', ''photo2'', ''photo3'', ''photo4'',
         ''photo5'', ''photo6'', ''photo7'']
        [1, 0, 1, 1, 1, 1, 1, 1, 1]) = 7
   \<and> preprocess_interleaved_sample example_parse_image
        \<lparr>sample_interleaved_list = [''icon'', ''Some text.''], sample_is_image = [1, 0]\<rparr>
        example_tokenizer example_image_processor
      = Inl (ValueError ''No images in sample'')"
proof -
  let ?doc = "\<lparr>sample_interleaved_list =
              [''photo1'', ''A caption.'', ''icon'', ''photo2'', ''photo3'', ''photo4'',
               ''photo5'', ''photo6'', ''photo7''],
            sample_is_image = [1, 0, 1, 1, 1, 1, 1, 1, 1]\<rparr>"
  let ?icon = "\<lparr>sample_interleaved_list = [''icon'', ''Some text.''], sample_is_image = [1, 0]\<rparr>"
  have e: "map_sum id fst (preprocess_interleaved_sample example_parse_image ?doc
             example_tokenizer example_image_processor)
           = Inr [''photo1'', ''photo2'', ''photo3'', ''photo4'', ''photo5'']"
    by code_simp
  then obtain images_tensor text_tensor where
    r: "preprocess_interleaved_sample example_parse_image ?doc
          example_tokenizer example_image_processor = Inr (images_tensor, text_tensor)"
    and i: "images_tensor = [''photo1'', ''photo2'', ''photo3'', ''photo4'', ''photo5'']"
    by (cases "preprocess_interleaved_sample example_parse_image ?doc
                 example_tokenizer example_image_processor") auto
  from interleaved_images_capped[of example_parse_image ?doc example_tokenizer
      example_image_processor images_tensor text_tensor] r
  have l: "length images_tensor = 5" by blast
  have w7: "length (wanted_images example_parse_image
        [''photo1'', ''A caption.'', ''icon'', ''photo2'', ''photo3'', ''photo4'',
         ''photo5'', ''photo6'', ''photo7'']
        [1, 0, 1, 1, 1, 1, 1, 1, 1]) = 7"
    by code_simp
  have w0: "wanted_images example_parse_image (sample_interleaved_list ?icon)
              (sample_is_image ?icon) = []"
    by code_simp
  have ruw: "remove_unwanted_images example_parse_image (sample_interleaved_list ?icon)
              (sample_is_image ?icon) = Inr (0, [Str [], Str ''Some text.''], [0, 0])"
    by code_simp
  from interleaved_images_capped[of example_parse_image ?icon example_tokenizer
      example_image_processor] w0 ruw
  have rej: "preprocess_interleaved_sample example_parse_image ?icon
        example_tokenizer example_image_processor = Inl (ValueError ''No images in sample'')"
    by auto
  show ?thesis using r i l w7 rej by simp
qed

subsection \<open>The span-masking preprocessor\<close>

lemma count_true_append: "count_true (xs @ ys) = count_true xs + count_true ys"
  by (simp add: count_true_def)

lemma count_true_le: "count_true flags \<le> length flags"
  by (simp add: count_true_def)

lemma count_true_update:
  assumes "i < length flags" and "flags ! i"
  shows "Suc (count_true (flags[i := False])) = count_true flags"
proof -
  have "flags = take i flags @ flags ! i # drop (Suc i) flags"
    using assms(1) by (rule id_take_nth_drop)
  then have "count_true flags
             = count_true (take i flags) + Suc (count_true (drop (Suc i) flags))"
    using assms(2) by (metis count_true_append count_true_def filter.simps(2) length_Cons)
  moreover have "flags[i := False] = take i flags @ False # drop (Suc i) flags"
    using assms(1) by (rule upd_conv_take_nth_drop)
  then have "count_true (flags[i := False])
             = count_true (take i flags) + count_true (drop (Suc i) flags)"
    by (simp add: count_true_def)
  ultimately show ?thesis by simp
qed

lemma clear_marks:
  "distinct idxs \<Longrightarrow> \<forall>i \<in> set idxs. i < length flags \<and> flags ! i \<Longrightarrow>
     count_true (fold (\<lambda>i fl. fl[i := False]) idxs flags) + length idxs = count_true flags
     \<and> length (fold (\<lambda>i fl. fl[i := False]) idxs flags) = length flags"
proof (induction idxs arbitrary: flags)
  case Nil
  then show ?case by simp
next
  case (Cons i idxs)
  have i: "i < length flags" "flags ! i" using Cons.prems(2) by simp_all
  have d: "distinct idxs" "i \<notin> set idxs" using Cons.prems(1) by simp_all
  have rest: "\<forall>j \<in> set idxs. j < length (flags[i := False]) \<and> (flags[i := False]) ! j"
    using Cons.prems(2) d(2) by (auto simp: nth_list_update)
  from Cons.IH[OF d(1) rest] count_true_update[OF i] show ?case by simp
qed

lemma nonzero_facts:
  "distinct (nonzero flags)"
  "set (nonzero flags) = {i. i < length flags \<and> flags ! i}"
  by (auto simp: nonzero_def)

lemma length_nonzero: "length (nonzero flags) = count_true flags"
proof (induction flags rule: rev_induct)
  case Nil
  then show ?case by (simp add: nonzero_def count_true_def)
next
  case (snoc b flags)
  have "filter (\<lambda>i. (flags @ [b]) ! i) [0..<length flags] = filter (\<lambda>i. flags ! i) [0..<length flags]"
    by (rule filter_cong) (auto simp: nth_append)
  then show ?case using snoc by (simp add: nonzero_def count_true_def)
qed

lemma mark_sentences_facts:
  assumes ok: "randperm_ok env" and m: "mark_sentences env n = Inr flags"
  shows "length flags = n" and "1 \<le> count_true flags" and "count_true flags \<le> 10"
proof -
  define mask where "mask = map (rand_le env n) [0..<n]"
  define ti where "ti = nonzero mask"
  define ov where "ov = count_true mask - 10"
  define chosen where "chosen = take ov (randperm env (length ti))"
  have lm: "length mask = n" by (simp add: mask_def)
  have pos: "count_true mask \<noteq> 0"
    using m by (auto simp: mark_sentences_def Let_def mask_def[symmetric] split: if_splits)
  show "length flags = n" and "1 \<le> count_true flags" and "count_true flags \<le> 10"
  proof -
    have "length flags = n \<and> 1 \<le> count_true flags \<and> count_true flags \<le> 10"
    proof (cases "10 < count_true mask")
      case False
      with m pos have "flags = mask"
        by (auto simp: mark_sentences_def Let_def mask_def[symmetric] split: if_splits)
      with False pos lm show ?thesis by simp
    next
      case True
      with m pos have f: "flags = fold (\<lambda>p fl. fl[ti ! p := False]) chosen mask"
        by (auto simp: mark_sentences_def Let_def mask_def[symmetric] ti_def[symmetric]
            ov_def[symmetric] chosen_def[symmetric] split: if_splits)
      have perm: "mset (randperm env (length ti)) = mset [0..<length ti]"
        using ok by (simp add: randperm_ok_def)
      have pd: "distinct (randperm env (length ti))"
        using perm by (metis distinct_upt mset_eq_imp_distinct_iff)
      have ps: "set (randperm env (length ti)) = {0..<length ti}"
        using perm by (metis mset_eq_setD set_upt)
      have pl: "length (randperm env (length ti)) = length ti"
        using perm by (metis length_upt mset_eq_length minus_nat.diff_0)
      have cd: "distinct chosen" unfolding chosen_def using pd by (rule distinct_take)
      have cs: "\<forall>p \<in> set chosen. p < length ti"
        unfolding chosen_def using ps by (auto dest: in_set_takeD)
      have lt: "length ti = count_true mask" unfolding ti_def by (rule length_nonzero)
      have cl: "length chosen = ov"
        unfolding chosen_def using pl lt by (simp add: ov_def)
      define idxs where "idxs = map (\<lambda>p. ti ! p) chosen"
      have tid: "distinct ti" unfolding ti_def by (rule nonzero_facts)
      have id: "distinct idxs"
        unfolding idxs_def using cd cs tid
        by (auto simp: distinct_map inj_on_def nth_eq_iff_index_eq)
      have im: "\<forall>i \<in> set idxs. i < length mask \<and> mask ! i"
      proof
        fix i assume "i \<in> set idxs"
        then obtain p where "p \<in> set chosen" "i = ti ! p" by (auto simp: idxs_def)
        with cs have "i \<in> set ti" by simp
        then show "i < length mask \<and> mask ! i" unfolding ti_def nonzero_facts by simp
      qed
      have ff: "flags = fold (\<lambda>i fl. fl[i := False]) idxs mask"
        unfolding f idxs_def by (simp add: fold_map comp_def)
      from clear_marks[OF id im] have
        "count_true flags + length idxs = count_true mask" "length flags = length mask"
        unfolding ff by simp_all
      moreover have "length idxs = ov" by (simp add: idxs_def cl)
      ultimately show ?thesis using True lm unfolding ov_def by linarith
    qed
    then show "length flags = n" and "1 \<le> count_true flags" and "count_true flags \<le> 10"
      by simp_all
  qed
qed

lemma tokenize_max_length_length:
  "length (fst (tokenize_max_length tok n text)) = n"
  "length (snd (tokenize_max_length tok n text)) = n"
  by (simp_all add: tokenize_max_length_def pad_row_def)

lemma pile_sentences_nonempty: "pile_sentences env payload = Inr sentences \<Longrightarrow> sentences \<noteq> []"
  by (auto simp: pile_sentences_def Let_def split: sum.splits if_splits)

lemma example_randperm_ok: "randperm_ok example_pile_env"
  by (simp add: randperm_ok_def example_pile_env_def)

text \<open>
  Claim C7. For a document that the span-masking preprocessor accepts, at least one
  sentence is left after the punctuation filter, between one and ten sentences are marked
  as replaced (\<open>torch.randperm\<close> returning a permutation), and the tensors of the masked
  sentences, token ids and attention mask, have ten rows of 24 entries: one row for every
  replaced sentence and rows of zeros behind them.
\<close>

theorem pile_masks_capped:
  assumes ok: "randperm_ok env"
      and acc: "preprocess_pile env payload tok clip_tokenizer
                = Inr ((input_ids, attention_mask), text_tensor)"
  shows "\<exists>sentences indices_replaced.
           pile_sentences env payload = Inr sentences \<and> sentences \<noteq> []
         \<and> mark_sentences env (length sentences) = Inr indices_replaced
         \<and> 1 \<le> count_true indices_replaced \<and> count_true indices_replaced \<le> 10
         \<and> length input_ids = 10 \<and> length attention_mask = 10
         \<and> list_all (\<lambda>row. length row = 24) input_ids
         \<and> list_all (\<lambda>row. length row = 24) attention_mask
         \<and> drop (count_true indices_replaced) input_ids
             = replicate (10 - count_true indices_replaced) (replicate 24 0)
         \<and> drop (count_true indices_replaced) attention_mask
             = replicate (10 - count_true indices_replaced) (replicate 24 0)"
proof -
  from acc obtain sentences where s: "pile_sentences env payload = Inr sentences"
    by (auto simp: preprocess_pile_def split: sum.splits)
  from acc s obtain flags where m: "mark_sentences env (length sentences) = Inr flags"
    by (auto simp: preprocess_pile_def split: sum.splits)
  note mf = mark_sentences_facts[OF ok m]
  define chosen where
    "chosen = map (\<lambda>i. strip (sentences ! i)) (filter (\<lambda>i. flags ! i) [0..<length flags])"
  define rows where "rows = map (tokenize_max_length clip_tokenizer 24) chosen"
  define c where "c = count_true flags"
  have lc: "length chosen = c"
    unfolding chosen_def c_def using length_nonzero[of flags] by (simp add: nonzero_def)
  have lr: "length rows = c" by (simp add: rows_def lc)
  have c10: "1 \<le> c" "c \<le> 10" using mf by (simp_all add: c_def)
  have ids: "input_ids = (if c < 10 then map fst rows @ replicate (10 - c) (replicate 24 0)
                          else map fst rows)"
    and mask: "attention_mask = (if c < 10 then map snd rows @ replicate (10 - c) (replicate 24 0)
                          else map snd rows)"
    using acc s m lc
    by (auto simp add: preprocess_pile_def Let_def chosen_def[symmetric] rows_def)
  have w1: "list_all (\<lambda>row. length row = 24) (map fst rows)"
    and w2: "list_all (\<lambda>row. length row = 24) (map snd rows)"
    by (simp_all add: rows_def list_all_iff tokenize_max_length_length)
  have "length input_ids = 10" "length attention_mask = 10"
    using c10 lr by (simp_all add: ids mask)
  moreover have "list_all (\<lambda>row. length row = 24) input_ids"
    "list_all (\<lambda>row. length row = 24) attention_mask"
    using w1 w2 by (simp_all add: ids mask list_all_iff)
  moreover have "drop c input_ids = replicate (10 - c) (replicate 24 0)"
    "drop c attention_mask = replicate (10 - c) (replicate 24 0)"
    using c10 lr by (simp_all add: ids mask)
  ultimately show ?thesis
    using s m pile_sentences_nonempty[OF s] c10 unfolding c_def by blast
qed

theorem pile_masks_capped_witness:
  "(case preprocess_pile example_pile_env ''One.|...|Two.'' example_tokenizer example_tokenizer of
      Inl exn \<Rightarrow> False
    | Inr ((input_ids, attention_mask), text_tensor) \<Rightarrow>
        length input_ids = 10 \<and> length attention_mask = 10
        \<and> drop 2 input_ids = replicate 8 (replicate 24 0)
        \<and> drop 2 attention_mask = replicate 8 (replicate 24 0))
   \<and> mark_sentences example_pile_env 12 = Inr (replicate 10 True @ [False, False])
   \<and> count_true (replicate 10 True @ [False, False]) = 10"
proof -
  have s: "pile_sentences example_pile_env ''One.|...|Two.'' = Inr [''One.'', ''Two.'']"
    by code_simp
  have m: "mark_sentences example_pile_env (length [''One.'', ''Two.'']) = Inr [True, True]"
    by code_simp
  have c: "count_true [True, True] = 2" by code_simp
  have e: "map_sum id (\<lambda>r. ()) (preprocess_pile example_pile_env ''One.|...|Two.''
             example_tokenizer example_tokenizer) = Inr ()"
    by code_simp
  then obtain input_ids attention_mask text_tensor where
    r: "preprocess_pile example_pile_env ''One.|...|Two.'' example_tokenizer example_tokenizer
        = Inr ((input_ids, attention_mask), text_tensor)"
    by (cases "preprocess_pile example_pile_env ''One.|...|Two.'' example_tokenizer
                 example_tokenizer") auto
  from pile_masks_capped[OF example_randperm_ok r] s m c
  have "length input_ids = 10 \<and> length attention_mask = 10
        \<and> drop 2 input_ids = replicate 8 (replicate 24 0)
        \<and> drop 2 attention_mask = replicate 8 (replicate 24 0)"
    by auto
  moreover have "mark_sentences example_pile_env 12 = Inr (replicate 10 True @ [False, False])"
    by code_simp
  moreover have "count_true (replicate 10 True @ [False, False]) = 10"
    by code_simp
  ultimately show ?thesis using r by simp
qed

subsection \<open>Rejections, and what the pipeline does with them\<close>

text \<open>
  The span-masking preprocessor raises exactly when no sentence is left or none is
  marked, and a \<open>map\<close> stage with \<open>log_and_continue\<close> drops the samples on which the
  preprocessor raises, keeps the others in their order and ends without an exception.
\<close>

lemma mark_sentences_returns:
  assumes ok: "randperm_ok env" and pos: "count_true (map (rand_le env n) [0..<n]) \<noteq> 0"
  shows "\<exists>flags. mark_sentences env n = Inr flags"
proof -
  define mask where "mask = map (rand_le env n) [0..<n]"
  define ti where "ti = nonzero mask"
  define chosen where "chosen = take (count_true mask - 10) (randperm env (length ti))"
  have "mset (randperm env (length ti)) = mset [0..<length ti]"
    using ok by (simp add: randperm_ok_def)
  then have "set (randperm env (length ti)) = {0..<length ti}"
    by (metis mset_eq_setD set_upt)
  then have "list_all (\<lambda>p. p < length ti) chosen"
    unfolding chosen_def by (auto simp: list_all_iff dest: in_set_takeD)
  then show ?thesis
    using pos
    by (simp add: mark_sentences_def Let_def mask_def[symmetric] ti_def[symmetric]
        chosen_def[symmetric])
qed

lemma preprocess_pile_rejects_iff:
  assumes ok: "randperm_ok env" and dec: "decode_utf8 env payload = Inr text"
  defines "sentences \<equiv>
     filter (\<lambda>s. \<not> is_punctuation s)
       (sent_tokenize env (remove_multiple_newline_limiters (remove_consecutive_spaces text)))"
  shows "(\<exists>exn. preprocess_pile env payload tok clip_tokenizer = Inl exn)
         \<longleftrightarrow> sentences = []
              \<or> count_true (map (rand_le env (length sentences)) [0..<length sentences]) = 0"
proof (cases "sentences = []")
  case True
  then have "pile_sentences env payload = Inl (ValueError ''No sentences in sample'')"
    using dec by (simp add: pile_sentences_def Let_def sentences_def)
  with True show ?thesis by (simp add: preprocess_pile_def)
next
  case False
  then have s: "pile_sentences env payload = Inr sentences"
    using dec by (simp add: pile_sentences_def Let_def sentences_def)
  show ?thesis
  proof (cases "count_true (map (rand_le env (length sentences)) [0..<length sentences]) = 0")
    case True
    then have "mark_sentences env (length sentences) = Inl (ValueError ''No sentences to mask'')"
      by (simp add: mark_sentences_def Let_def)
    with True s show ?thesis by (simp add: preprocess_pile_def)
  next
    case nz: False
    from mark_sentences_returns[OF ok nz] obtain flags where
      "mark_sentences env (length sentences) = Inr flags" by blast
    with s have "\<exists>r. preprocess_pile env payload tok clip_tokenizer = Inr r"
      by (simp add: preprocess_pile_def Let_def)
    with False nz show ?thesis by auto
  qed
qed

lemma wds_map_skips_rejections:
  "wds_map f log_and_continue (xs, None)
   = (concat (map (\<lambda>x. case f x of Inl exn \<Rightarrow> [] | Inr y \<Rightarrow> [y]) xs), None)"
proof -
  have "List.map_filter (\<lambda>x. case f x of Inl exn \<Rightarrow> None | Inr y \<Rightarrow> Some y) xs
        = concat (map (\<lambda>x. case f x of Inl exn \<Rightarrow> [] | Inr y \<Rightarrow> [y]) xs)"
    by (induction xs) (auto simp: map_filter_simps split: sum.splits)
  then show ?thesis by (simp add: wds_map_log_and_continue)
qed

text \<open>
  Claim C8 fails on the interleaved preprocessor: \<open>preprocess_sentences\<close> returns the
  length of the whole list, images included, as the number of sentences, so that the test
  \<open>num_sentences == 0\<close> is never true once an image has passed the filter. The document
  of one image and the text \<open>...\<close> has no sentence left after the punctuation filter, and
  it is accepted.
\<close>

theorem interleaved_accepts_without_sentences:
  "preprocess_sentences [Img \<lparr>image_size = (64, 48), image_data = ''photo1''\<rparr>, Str ''...''] [1, 0]
     = Inr (1, [Img \<lparr>image_size = (64, 48), image_data = ''photo1''\<rparr>], [1])
   \<and> map_sum id fst
       (preprocess_interleaved_sample example_parse_image
          \<lparr>sample_interleaved_list = [''photo1'', ''...''], sample_is_image = [1, 0]\<rparr>
          example_tokenizer example_image_processor)
     = Inr [''photo1'', [], [], [], []]"
  by code_simp

end
